theory Spec2Isabelle
  imports Main "HOL-Library.AList"
begin

section \<open>The LRU cache of \<open>lru_cache.py\<close>\<close>

text \<open>
  The cache is a Python dictionary from keys to list nodes together with a doubly linked
  list of those nodes between two sentinel nodes. The nodes are mutable objects that are
  shared between the dictionary and the list, so the model keeps an explicit store: an
  object is an address, the store maps addresses to the fields of the object, and
  \<open>fresh\<close> is the next address the allocator hands out. A field that holds
  \<open>None\<close> or a node is a \<open>nat option\<close>.

  Keys and values are Python integers (the sentinels are built as \<open>Node(0, 0)\<close> and a
  failed lookup returns \<open>-1\<close>). The dictionary is an association list in insertion
  order, which is what \<open>len\<close>, \<open>in\<close>, item assignment and \<open>del\<close> of a Python
  dictionary observe. The exceptions the code can raise are values of \<open>error\<close>:
  reading a field of \<open>None\<close> is \<open>AttributeError\<close>, deleting a key that is not in
  the dictionary is \<open>KeyError\<close>.
\<close>

datatype error = AttributeError | KeyError

record node =
  key :: int
  val :: int
  prev :: "nat option"
  nxt :: "nat option"

record lru_cache =
  capacity :: int
  cache :: "(int \<times> nat) list"
  head :: nat
  tail :: nat
  heap :: "nat \<Rightarrow> node"
  fresh :: nat

text \<open>\<open>Node.__init__\<close>: the fields of a new node.\<close>

definition Node :: "int \<Rightarrow> int \<Rightarrow> node" where
  "Node k v = \<lparr>key = k, val = v, prev = None, nxt = None\<rparr>"

text \<open>\<open>LRUCache.__init__\<close>: no check of the capacity; two sentinels linked to each other.\<close>

definition LRUCache :: "int \<Rightarrow> error + lru_cache" where
  "LRUCache c =
     (let h = 0; t = 1;
          st0 = (\<lambda>_. Node 0 0);
          st1 = st0(h := Node 0 0);
          st2 = st1(t := Node 0 0);
          st3 = st2(h := (st2 h)\<lparr>nxt := Some t\<rparr>);
          st4 = st3(t := (st3 t)\<lparr>prev := Some h\<rparr>)
      in Inr \<lparr>capacity = c, cache = [], head = h, tail = t, heap = st4, fresh = 2\<rparr>)"

text \<open>
  \<open>_remove\<close>: the argument may be \<open>None\<close> (it is \<open>self.tail.prev\<close> in \<open>put\<close>). The two
  field reads come first, then the two writes, each of which fails on \<open>None\<close>.
\<close>

definition remove_node :: "nat option \<Rightarrow> lru_cache \<Rightarrow> error + lru_cache" where
  "remove_node node s =
     (case node of
        None \<Rightarrow> Inl AttributeError
      | Some n \<Rightarrow>
          let p = prev (heap s n);
              x = nxt (heap s n)
          in (case p of
                None \<Rightarrow> Inl AttributeError
              | Some pa \<Rightarrow>
                  let st1 = (heap s)(pa := (heap s pa)\<lparr>nxt := x\<rparr>)
                  in (case x of
                        None \<Rightarrow> Inl AttributeError
                      | Some xa \<Rightarrow>
                          Inr (s\<lparr>heap := st1(xa := (st1 xa)\<lparr>prev := p\<rparr>)\<rparr>))))"

text \<open>\<open>_add\<close>: link the node right after the head sentinel.\<close>

definition add_node :: "nat \<Rightarrow> lru_cache \<Rightarrow> error + lru_cache" where
  "add_node n s =
     (let x = nxt (heap s (head s));
          st1 = (heap s)(head s := (heap s (head s))\<lparr>nxt := Some n\<rparr>);
          st2 = st1(n := (st1 n)\<lparr>prev := Some (head s)\<rparr>);
          st3 = st2(n := (st2 n)\<lparr>nxt := x\<rparr>)
      in (case x of
            None \<Rightarrow> Inl AttributeError
          | Some xa \<Rightarrow> Inr (s\<lparr>heap := st3(xa := (st3 xa)\<lparr>prev := Some n\<rparr>)\<rparr>)))"

text \<open>\<open>get\<close>: the result is the returned integer and the cache after the call.\<close>

definition get :: "int \<Rightarrow> lru_cache \<Rightarrow> error + (int \<times> lru_cache)" where
  "get k s =
     (case map_of (cache s) k of
        Some n \<Rightarrow>
          (case remove_node (Some n) s of
             Inl e \<Rightarrow> Inl e
           | Inr s1 \<Rightarrow>
               (case add_node n s1 of
                  Inl e \<Rightarrow> Inl e
                | Inr s2 \<Rightarrow> Inr (val (heap s2 n), s2)))
      | None \<Rightarrow> Inr (- 1, s))"

text \<open>
  \<open>put\<close>: an old node of the key is unlinked, a new node is allocated, linked at the head
  and stored in the dictionary; then the length check and the eviction of \<open>tail.prev\<close>.
  The three statements of the eviction branch are \<open>evict\<close>: \<open>lru = self.tail.prev\<close>,
  \<open>self._remove(lru)\<close> and \<open>del self.cache[lru.key]\<close>.
\<close>

definition evict :: "lru_cache \<Rightarrow> error + lru_cache" where
  "evict s =
     (let lru = prev (heap s (tail s))
      in (case remove_node lru s of
            Inl e \<Rightarrow> Inl e
          | Inr s1 \<Rightarrow>
              (case lru of
                 None \<Rightarrow> Inl AttributeError
               | Some l \<Rightarrow>
                   let lk = key (heap s1 l)
                   in if lk \<in> fst ` set (cache s1)
                      then Inr (s1\<lparr>cache := AList.delete lk (cache s1)\<rparr>)
                      else Inl KeyError)))"

definition put :: "int \<Rightarrow> int \<Rightarrow> lru_cache \<Rightarrow> error + lru_cache" where
  "put k v s =
     (case (case map_of (cache s) k of
              Some old \<Rightarrow> remove_node (Some old) s
            | None \<Rightarrow> Inr s) of
        Inl e \<Rightarrow> Inl e
      | Inr s1 \<Rightarrow>
          let n = fresh s1;
              s2 = s1\<lparr>heap := (heap s1)(n := Node k v), fresh := Suc n\<rparr>
          in (case add_node n s2 of
                Inl e \<Rightarrow> Inl e
              | Inr s3 \<Rightarrow>
                  let s4 = s3\<lparr>cache := AList.update k n (cache s3)\<rparr>
                  in if int (length (cache s4)) > capacity s4
                     then evict s4
                     else Inr s4))"

text \<open>A call of one of the two public methods, and a sequence of calls on one cache.\<close>

datatype op = Get int | Put int int

fun step :: "op \<Rightarrow> lru_cache \<Rightarrow> error + lru_cache" where
  "step (Get k) s = (case get k s of Inl e \<Rightarrow> Inl e | Inr (r, s') \<Rightarrow> Inr s')"
| "step (Put k v) s = put k v s"

fun run :: "op list \<Rightarrow> lru_cache \<Rightarrow> error + lru_cache" where
  "run [] s = Inr s"
| "run (c # cs) s = (case step c s of Inl e \<Rightarrow> Inl e | Inr s' \<Rightarrow> run cs s')"

text \<open>
  A cache is constructed and then receives the calls, in order; \<open>returns\<close> is the
  integer the caller of \<open>get\<close> sees.
\<close>

definition calls :: "int \<Rightarrow> op list \<Rightarrow> error + lru_cache" where
  "calls c ops = (case LRUCache c of Inl e \<Rightarrow> Inl e | Inr s \<Rightarrow> run ops s)"

definition returns :: "int \<Rightarrow> lru_cache \<Rightarrow> error + int" where
  "returns k s = map_sum id fst (get k s)"

section \<open>Reading the list and the dictionary\<close>

text \<open>
  \<open>order\<close> is the sequence of node addresses met from \<open>head.next\<close> along the
  \<open>next\<close> fields up to the tail sentinel. No address at or above \<open>fresh\<close> is
  allocated, so \<open>fresh\<close> steps are enough to reach the tail of a well-formed list.
  \<open>entries\<close> are the key and value of these nodes, most recently used first.
\<close>

fun walk :: "(nat \<Rightarrow> node) \<Rightarrow> nat \<Rightarrow> nat \<Rightarrow> nat option \<Rightarrow> nat list" where
  "walk h t 0 a = []"
| "walk h t (Suc f) a =
     (case a of None \<Rightarrow> [] | Some n \<Rightarrow> if n = t then [] else n # walk h t f (nxt (h n)))"

definition order :: "lru_cache \<Rightarrow> nat list" where
  "order s = walk (heap s) (tail s) (fresh s) (nxt (heap s (head s)))"

definition nodes :: "lru_cache \<Rightarrow> nat list \<Rightarrow> (int \<times> int) list" where
  "nodes s ns = map (\<lambda>a. (key (heap s a), val (heap s a))) ns"

definition entries :: "lru_cache \<Rightarrow> (int \<times> int) list" where
  "entries s = nodes s (order s)"

section \<open>Well-formed caches\<close>

text \<open>
  \<open>linked h as\<close>: each address of \<open>as\<close> points forward to its successor and the
  successor points back. \<open>chain s ns\<close>: the allocated addresses
  \<open>head, ns, tail\<close> are pairwise different and linked in this order.
  \<open>inv_on s ns\<close> adds the agreement of dictionary and list (I1, I3 and I5 of the
  specification): the keys of the nodes are pairwise different, and the dictionary holds
  exactly the pairs of a node's key and the node. \<open>same\<close> relates two caches that
  differ in link fields only.
\<close>

fun linked :: "(nat \<Rightarrow> node) \<Rightarrow> nat list \<Rightarrow> bool" where
  "linked h (a # b # cs) = (nxt (h a) = Some b \<and> prev (h b) = Some a \<and> linked h (b # cs))"
| "linked h [a] = True"
| "linked h [] = True"

definition chain :: "lru_cache \<Rightarrow> nat list \<Rightarrow> bool" where
  "chain s ns =
     (distinct (head s # ns @ [tail s]) \<and> linked (heap s) (head s # ns @ [tail s]) \<and>
      (\<forall>a \<in> set (head s # ns @ [tail s]). a < fresh s))"

definition inv_on :: "lru_cache \<Rightarrow> nat list \<Rightarrow> bool" where
  "inv_on s ns =
     (chain s ns \<and> distinct (map fst (nodes s ns)) \<and> distinct (map fst (cache s)) \<and>
      set (cache s) = (\<lambda>a. (key (heap s a), a)) ` set ns)"

definition well_formed :: "lru_cache \<Rightarrow> bool" where
  "well_formed s = inv_on s (order s)"

definition same :: "lru_cache \<Rightarrow> lru_cache \<Rightarrow> bool" where
  "same s s' =
     (capacity s' = capacity s \<and> cache s' = cache s \<and> head s' = head s \<and> tail s' = tail s \<and>
      fresh s' = fresh s \<and>
      (\<forall>a. key (heap s' a) = key (heap s a) \<and> val (heap s' a) = val (heap s a)))"

section \<open>The cache as a list of entries\<close>

text \<open>
  The behaviour of the two methods on the entries alone, most recently used first: a hit
  moves the entry to the front, a \<open>put\<close> places the new entry at the front, drops an
  older entry of the key, and drops the last entry when the length exceeds the capacity.
\<close>

definition get_list :: "int \<Rightarrow> (int \<times> int) list \<Rightarrow> int \<times> (int \<times> int) list" where
  "get_list k xs =
     (case map_of xs k of
        None \<Rightarrow> (- 1, xs)
      | Some v \<Rightarrow> (v, (k, v) # filter (\<lambda>p. fst p \<noteq> k) xs))"

definition put_list :: "int \<Rightarrow> int \<Rightarrow> int \<Rightarrow> (int \<times> int) list \<Rightarrow> (int \<times> int) list" where
  "put_list c k v xs =
     (let ys = (k, v) # filter (\<lambda>p. fst p \<noteq> k) xs
      in if int (length ys) > c then butlast ys else ys)"

fun step_list :: "int \<Rightarrow> op \<Rightarrow> (int \<times> int) list \<Rightarrow> (int \<times> int) list" where
  "step_list c (Get k) xs = snd (get_list k xs)"
| "step_list c (Put k v) xs = put_list c k v xs"

section \<open>The history of a cache\<close>

text \<open>\<open>puts k x\<close>: the call \<open>x\<close> is a \<open>put\<close> of the key \<open>k\<close>.\<close>

fun puts :: "int \<Rightarrow> op \<Rightarrow> bool" where
  "puts k (Put k' v) = (k' = k)"
| "puts k (Get k') = False"

text \<open>
  \<open>last_put k cs\<close>: the value of the last \<open>put\<close> of the key \<open>k\<close> among the calls
  \<open>cs\<close>, if there is one; \<open>set_put\<close> takes one call into account.
\<close>

fun set_put :: "int \<Rightarrow> op \<Rightarrow> int option \<Rightarrow> int option" where
  "set_put k (Put k' v) r = (if k' = k then Some v else r)"
| "set_put k (Get k') r = r"

definition last_put :: "int \<Rightarrow> op list \<Rightarrow> int option" where
  "last_put k cs = fold (set_put k) cs None"

text \<open>
  \<open>touches k x\<close>: the call \<open>x\<close> names the key \<open>k\<close>. \<open>idle k cs\<close> is the number of
  calls of \<open>cs\<close> after the last one that names \<open>k\<close>: the larger, the less recently the
  key was used.
\<close>

fun touches :: "int \<Rightarrow> op \<Rightarrow> bool" where
  "touches k (Get k') = (k' = k)"
| "touches k (Put k' v) = (k' = k)"

fun since :: "int \<Rightarrow> op list \<Rightarrow> nat" where
  "since k [] = 0"
| "since k (x # xs) = (if touches k x then 0 else Suc (since k xs))"

definition idle :: "int \<Rightarrow> op list \<Rightarrow> nat" where
  "idle k cs = since k (rev cs)"

section \<open>Linked lists in the store\<close>

lemma in_set_tl: "a \<in> set (tl xs) \<Longrightarrow> a \<in> set xs"
  by (cases xs) auto

lemma linked_append:
  "linked h (as @ b # cs) = (linked h (as @ [b]) \<and> linked h (b # cs))"
  by (induction h as rule: linked.induct) auto

lemma linked_cong:
  "\<forall>a \<in> set (butlast as). nxt (h' a) = nxt (h a) \<Longrightarrow>
   \<forall>a \<in> set (tl as). prev (h' a) = prev (h a) \<Longrightarrow> linked h' as = linked h as"
  by (induction h as rule: linked.induct) auto

lemma linked_remove:
  assumes d: "distinct (P @ p # n # x # X)"
    and l: "linked h (P @ p # n # x # X)"
    and px: "nxt (h' p) = Some x" and xp: "prev (h' x) = Some p"
    and fn: "\<forall>a. a \<noteq> p \<longrightarrow> nxt (h' a) = nxt (h a)"
    and fp: "\<forall>a. a \<noteq> x \<longrightarrow> prev (h' a) = prev (h a)"
  shows "linked h' (P @ p # x # X)"
proof -
  from l have l1: "linked h (P @ [p])" and l2: "linked h (x # X)"
    using linked_append [of h P p "n # x # X"] linked_append [of h "[p, n]" x X] by auto
  have "linked h' (P @ [p]) = linked h (P @ [p])"
    using d fn fp by (intro linked_cong) (auto dest!: in_set_butlastD in_set_tl)
  moreover have "linked h' (x # X) = linked h (x # X)"
    using d fn fp by (intro linked_cong) (auto dest!: in_set_butlastD in_set_tl)
  ultimately show ?thesis
    using l1 l2 px xp linked_append [of h' P p "x # X"] by simp
qed

lemma linked_add:
  assumes d: "distinct (g # n # x # X)"
    and l: "linked h (g # x # X)"
    and a1: "nxt (h' g) = Some n" and a2: "prev (h' n) = Some g"
    and a3: "nxt (h' n) = Some x" and a4: "prev (h' x) = Some n"
    and fn: "\<forall>a. a \<noteq> g \<and> a \<noteq> n \<longrightarrow> nxt (h' a) = nxt (h a)"
    and fp: "\<forall>a. a \<noteq> n \<and> a \<noteq> x \<longrightarrow> prev (h' a) = prev (h a)"
  shows "linked h' (g # n # x # X)"
proof -
  from l have l2: "linked h (x # X)" by simp
  have "linked h' (x # X) = linked h (x # X)"
    using d fn fp by (intro linked_cong) (auto dest!: in_set_butlastD in_set_tl)
  then show ?thesis using l2 a1 a2 a3 a4 by simp
qed

subsection \<open>Unlinking, linking and allocating a node\<close>

lemma remove_node_chain:
  assumes c: "chain s ns" and n: "n \<in> set ns"
  shows "\<exists>s'. remove_node (Some n) s = Inr s' \<and> chain s' (remove1 n ns) \<and> same s s'"
proof -
  from n obtain ys zs where ns: "ns = ys @ n # zs"
    by (meson split_list)
  obtain P p where P: "head s # ys = P @ [p]"
    by (cases "head s # ys" rule: rev_cases) auto
  obtain x X where X: "zs @ [tail s] = x # X"
    by (cases zs) auto
  have L: "head s # ns @ [tail s] = P @ p # n # x # X"
    using ns P X by (metis append.assoc append_Cons append_Nil)
  from c have dn: "distinct ns" by (simp add: chain_def)
  then have r: "remove1 n ns = ys @ zs"
    using ns by (simp add: remove1_append)
  have L': "head s # remove1 n ns @ [tail s] = P @ p # x # X"
    using r P X by (metis append.assoc append_Cons append_Nil)
  from c L have d: "distinct (P @ p # n # x # X)"
    and l: "linked (heap s) (P @ p # n # x # X)"
    and b: "\<forall>a \<in> set (P @ p # n # x # X). a < fresh s"
    by (simp_all add: chain_def)
  from l have pn: "prev (heap s n) = Some p" and nx: "nxt (heap s n) = Some x"
    using linked_append [of "heap s" P p "n # x # X"] by auto
  define h' where
    "h' = (heap s)(p := (heap s p)\<lparr>nxt := Some x\<rparr>, x := (heap s x)\<lparr>prev := Some p\<rparr>)"
  from d have px: "p \<noteq> x" by auto
  have run: "remove_node (Some n) s = Inr (s\<lparr>heap := h'\<rparr>)"
    using pn nx px by (simp add: remove_node_def Let_def h'_def)
  have "linked h' (P @ p # x # X)"
    by (rule linked_remove [OF d l]) (use px in \<open>auto simp: h'_def\<close>)
  moreover from d have "distinct (P @ p # x # X)" by auto
  moreover from b have "\<forall>a \<in> set (P @ p # x # X). a < fresh s" by auto
  ultimately have "chain (s\<lparr>heap := h'\<rparr>) (remove1 n ns)"
    using L' by (simp add: chain_def)
  moreover have "same s (s\<lparr>heap := h'\<rparr>)"
    by (simp add: same_def h'_def)
  ultimately show ?thesis using run by blast
qed

lemma add_node_chain:
  assumes c: "chain s ns" and n: "n \<notin> set (head s # ns @ [tail s])" and f: "n < fresh s"
  shows "\<exists>s'. add_node n s = Inr s' \<and> chain s' (n # ns) \<and> same s s'"
proof -
  obtain x X where X: "ns @ [tail s] = x # X"
    by (cases ns) auto
  from c X have d0: "distinct (head s # x # X)"
    and l: "linked (heap s) (head s # x # X)"
    and b: "\<forall>a \<in> set (head s # x # X). a < fresh s"
    by (simp_all add: chain_def)
  from n X have n': "n \<notin> set (head s # x # X)" by simp
  with d0 have d: "distinct (head s # n # x # X)" by auto
  from l have hx: "nxt (heap s (head s)) = Some x" by simp
  define h' where
    "h' = (heap s)(head s := (heap s (head s))\<lparr>nxt := Some n\<rparr>,
                   n := (heap s n)\<lparr>prev := Some (head s), nxt := Some x\<rparr>,
                   x := (heap s x)\<lparr>prev := Some n\<rparr>)"
  have run: "add_node n s = Inr (s\<lparr>heap := h'\<rparr>)"
    using hx d by (auto simp add: add_node_def Let_def h'_def)
  have "linked h' (head s # n # x # X)"
    by (rule linked_add [OF d l]) (use d in \<open>auto simp: h'_def\<close>)
  with d b f X have "chain (s\<lparr>heap := h'\<rparr>) (n # ns)"
    by (simp add: chain_def)
  moreover have "same s (s\<lparr>heap := h'\<rparr>)"
    by (simp add: same_def h'_def)
  ultimately show ?thesis using run by blast
qed

lemma alloc_chain:
  assumes c: "chain s ns"
  shows "chain (s\<lparr>heap := (heap s)(fresh s := nd), fresh := Suc (fresh s)\<rparr>) ns"
proof -
  let ?L = "head s # ns @ [tail s]"
  from c have b: "\<forall>a \<in> set ?L. a < fresh s" by (simp add: chain_def)
  then have "linked ((heap s)(fresh s := nd)) ?L = linked (heap s) ?L"
    by (intro linked_cong) (auto dest!: in_set_butlastD in_set_tl)
  with c b show ?thesis by (auto simp add: chain_def less_Suc_eq)
qed

subsection \<open>The traversal finds the chain\<close>

lemma walk_linked:
  "linked h (a # as @ [t]) \<Longrightarrow> distinct (a # as @ [t]) \<Longrightarrow> length as < f \<Longrightarrow>
   walk h t f (nxt (h a)) = as"
proof (induction as arbitrary: a f)
  case Nil
  then show ?case by (cases f) auto
next
  case (Cons b bs)
  from Cons.prems obtain f' where f: "f = Suc f'" and lf: "length bs < f'"
    by (cases f) auto
  from Cons.prems have nb: "nxt (h a) = Some b" and bt: "b \<noteq> t"
    and l: "linked h (b # bs @ [t])" and d: "distinct (b # bs @ [t])"
    by auto
  from Cons.IH [OF l d lf] show ?case using f nb bt by simp
qed

lemma distinct_bounded_length:
  assumes "distinct xs" and "\<forall>a \<in> set xs. a < (m::nat)"
  shows "length xs \<le> m"
proof -
  from assms(2) have "set xs \<subseteq> {..<m}" by auto
  then have "card (set xs) \<le> card {..<m}" by (intro card_mono) auto
  with assms(1) show ?thesis by (simp add: distinct_card)
qed

lemma order_chain:
  assumes c: "chain s ns"
  shows "order s = ns"
proof -
  from c have d: "distinct (head s # ns @ [tail s])"
    and l: "linked (heap s) (head s # ns @ [tail s])"
    and b: "\<forall>a \<in> set (head s # ns @ [tail s]). a < fresh s"
    by (simp_all add: chain_def)
  from d b have "length (head s # ns @ [tail s]) \<le> fresh s"
    by (rule distinct_bounded_length)
  then have "length ns < fresh s" by simp
  with l d show ?thesis
    unfolding order_def by (rule walk_linked)
qed

subsection \<open>What the invariant says about the dictionary\<close>

lemma same_nodes: "same s s' \<Longrightarrow> nodes s' ns = nodes s ns"
  by (simp add: same_def nodes_def)

lemma inv_on_length:
  assumes "inv_on s ns"
  shows "length (cache s) = length ns"
proof -
  from assms have dn: "distinct ns" and dk: "distinct (map fst (nodes s ns))"
    and dc: "distinct (map fst (cache s))"
    and e: "set (cache s) = (\<lambda>a. (key (heap s a), a)) ` set ns"
    by (simp_all add: inv_on_def chain_def)
  have "inj_on (\<lambda>a. (key (heap s a), a)) (set ns)" by (simp add: inj_on_def)
  then have "card (set (cache s)) = card (set ns)" using e by (simp add: card_image)
  moreover from dc have "distinct (cache s)" by (simp add: distinct_map)
  ultimately show ?thesis using dn by (simp add: distinct_card)
qed

lemma fst_nodes: "map fst (nodes s ns) = map (\<lambda>a. key (heap s a)) ns"
  by (simp add: nodes_def)

lemma inv_on_keys:
  assumes "inv_on s ns"
  shows "fst ` set (cache s) = fst ` set (nodes s ns)"
proof -
  from assms have "set (cache s) = (\<lambda>a. (key (heap s a), a)) ` set ns"
    by (simp add: inv_on_def)
  then have "fst ` set (cache s) = (\<lambda>a. key (heap s a)) ` set ns"
    by (simp add: image_image)
  also have "\<dots> = fst ` set (nodes s ns)"
    by (simp add: nodes_def image_image)
  finally show ?thesis .
qed

lemma inv_on_lookup:
  assumes i: "inv_on s ns" and m: "map_of (cache s) k = Some a"
  shows "a \<in> set ns \<and> key (heap s a) = k \<and> map_of (nodes s ns) k = Some (val (heap s a))"
proof -
  from m have "(k, a) \<in> set (cache s)" by (rule map_of_SomeD)
  with i have a: "a \<in> set ns" and k: "key (heap s a) = k"
    by (auto simp add: inv_on_def)
  then have "(k, val (heap s a)) \<in> set (nodes s ns)"
    unfolding nodes_def by (simp add: image_iff) (rule bexI [of _ a], simp_all)
  moreover from i have "distinct (map fst (nodes s ns))" by (simp add: inv_on_def)
  ultimately show ?thesis using a k by simp
qed

lemma inv_on_lookup_None:
  assumes i: "inv_on s ns" and m: "map_of (cache s) k = None"
  shows "map_of (nodes s ns) k = None"
  using inv_on_keys [OF i] m by (simp add: map_of_eq_None_iff)

subsection \<open>The methods keep the invariant and follow the list of entries\<close>

lemma set_update_distinct:
  "distinct (map fst al) \<Longrightarrow> set (AList.update k v al) = insert (k, v) {p \<in> set al. fst p \<noteq> k}"
  by (induction al) (auto simp add: rev_image_eqI)

lemma set_delete: "set (AList.delete k al) = {p \<in> set al. fst p \<noteq> k}"
  by (auto simp add: AList.delete_eq)

lemma chain_cache_update [simp]: "chain (s\<lparr>cache := c\<rparr>) ns = chain s ns"
  by (simp add: chain_def)

lemma nodes_cache_update [simp]: "nodes (s\<lparr>cache := c\<rparr>) ns = nodes s ns"
  by (simp add: nodes_def)

lemma nodes_butlast: "nodes s (butlast ns) = butlast (nodes s ns)"
  by (simp add: nodes_def map_butlast)

lemma remove1_last: "distinct ns \<Longrightarrow> ns \<noteq> [] \<Longrightarrow> remove1 (last ns) ns = butlast ns"
proof -
  assume d: "distinct ns" and ne: "ns \<noteq> []"
  then have e: "ns = butlast ns @ [last ns]" by simp
  with d have "last ns \<notin> set (butlast ns)"
    by (metis distinct_append distinct.simps(2) disjoint_iff list.set_intros(1))
  then have "remove1 (last ns) (butlast ns @ [last ns]) = butlast ns"
    by (simp add: remove1_append)
  with e show ?thesis by simp
qed

lemma evict_inv:
  assumes i: "inv_on s ns" and ne: "ns \<noteq> []"
  shows "\<exists>s'. evict s = Inr s' \<and> inv_on s' (butlast ns) \<and> capacity s' = capacity s \<and>
              nodes s' (butlast ns) = butlast (nodes s ns) \<and>
              prev (heap s (tail s)) = Some (last ns)"
proof -
  define l where "l = last ns"
  from ne have e: "ns = butlast ns @ [l]" by (simp add: l_def)
  from i have c: "chain s ns" and dk: "distinct (map fst (nodes s ns))"
    and dc: "distinct (map fst (cache s))"
    and ix: "set (cache s) = (\<lambda>a. (key (heap s a), a)) ` set ns"
    by (simp_all add: inv_on_def)
  from c have dn: "distinct ns" by (simp add: chain_def)
  from ne have ln: "l \<in> set ns" by (simp add: l_def)
  have "head s # ns @ [tail s] = (head s # butlast ns) @ l # [tail s]"
    using e by (metis append.assoc append_Cons append_Nil)
  with c have "linked (heap s) ((head s # butlast ns) @ l # [tail s])"
    by (simp only: chain_def)
  then have pt: "prev (heap s (tail s)) = Some l"
    using linked_append [of "heap s" "head s # butlast ns" l "[tail s]"] by simp
  from remove_node_chain [OF c ln] obtain s1 where
    r: "remove_node (Some l) s = Inr s1" and c1: "chain s1 (remove1 l ns)" and sm: "same s s1"
    by blast
  from dn ne have r1: "remove1 l ns = butlast ns" by (simp add: l_def remove1_last)
  define lk where "lk = key (heap s l)"
  from sm have k1: "key (heap s1 l) = lk" and ca: "cache s1 = cache s"
    and cp: "capacity s1 = capacity s"
    by (simp_all add: same_def lk_def)
  from ix ln have "(lk, l) \<in> set (cache s)" by (simp add: lk_def)
  then have "lk \<in> fst ` set (cache s)" by (rule rev_image_eqI) simp
  then have ev: "evict s = Inr (s1\<lparr>cache := AList.delete lk (cache s)\<rparr>)"
    using pt r k1 ca by (simp add: evict_def Let_def)
  let ?s' = "s1\<lparr>cache := AList.delete lk (cache s)\<rparr>"
  have n1: "nodes ?s' (butlast ns) = butlast (nodes s ns)"
    using same_nodes [OF sm] by (simp add: nodes_butlast)
  have d1: "distinct (map fst (nodes ?s' (butlast ns)))"
    using distinct_butlast [OF dk] n1 by (simp add: map_butlast)
  have d2: "distinct (map fst (cache ?s'))"
    using dc by (simp add: distinct_delete)
  from dk have inj: "inj_on (\<lambda>a. key (heap s a)) (set ns)"
    by (simp add: fst_nodes distinct_map)
  from dn e have sb: "set (butlast ns) = set ns - {l}"
    by (metis Diff_insert_absorb Un_insert_right append_Nil2 distinct.simps(2) distinct_append
        list.simps(15) set_append disjoint_iff list.set_intros(1))
  have "{p \<in> set (cache s). fst p \<noteq> lk} = (\<lambda>a. (key (heap s a), a)) ` (set ns - {l})"
    using ix inj ln by (auto simp add: lk_def inj_on_def)
  then have d3: "set (cache ?s') = (\<lambda>a. (key (heap ?s' a), a)) ` set (butlast ns)"
    using sm sb by (simp add: set_delete same_def)
  from c1 r1 d1 d2 d3 have "inv_on ?s' (butlast ns)"
    by (simp add: inv_on_def)
  with ev n1 cp pt show ?thesis by (simp add: l_def)
qed

lemma nodes_remove1:
  "distinct (map (\<lambda>a. key (heap s a)) ns) \<Longrightarrow> a \<in> set ns \<Longrightarrow>
   nodes s (remove1 a ns) = filter (\<lambda>p. fst p \<noteq> key (heap s a)) (nodes s ns)"
proof (induction ns)
  case Nil
  then show ?case by simp
next
  case (Cons b bs)
  show ?case
  proof (cases "a = b")
    case True
    from Cons.prems have "\<forall>c \<in> set bs. key (heap s c) \<noteq> key (heap s b)"
      by (auto simp add: image_iff)
    then have "filter (\<lambda>p. fst p \<noteq> key (heap s b)) (nodes s bs) = nodes s bs"
      by (simp add: nodes_def filter_id_conv)
    with True show ?thesis by (simp add: nodes_def)
  next
    case False
    with Cons.prems have ab: "a \<in> set bs" and d: "distinct (map (\<lambda>a. key (heap s a)) bs)"
      and nb: "key (heap s b) \<notin> (\<lambda>a. key (heap s a)) ` set bs"
      by auto
    from ab nb have "key (heap s b) \<noteq> key (heap s a)" by (auto simp add: image_iff)
    with False Cons.IH [OF d ab] show ?thesis by (simp add: nodes_def)
  qed
qed

lemma nodes_absent:
  "k \<notin> (\<lambda>a. key (heap s a)) ` set ns \<Longrightarrow> filter (\<lambda>p. fst p \<noteq> k) (nodes s ns) = nodes s ns"
  by (auto simp add: nodes_def filter_id_conv)

lemma get_inv:
  assumes i: "inv_on s ns"
  shows "\<exists>r s' ns'. get k s = Inr (r, s') \<and> inv_on s' ns' \<and> capacity s' = capacity s \<and>
           cache s' = cache s \<and> (r, nodes s' ns') = get_list k (nodes s ns)"
proof (cases "map_of (cache s) k")
  case None
  then have "get k s = Inr (- 1, s)" by (simp add: get_def)
  moreover from inv_on_lookup_None [OF i None]
  have "get_list k (nodes s ns) = (- 1, nodes s ns)" by (simp add: get_list_def)
  ultimately show ?thesis using i by auto
next
  case (Some a)
  from inv_on_lookup [OF i Some] have a: "a \<in> set ns" and ka: "key (heap s a) = k"
    and m: "map_of (nodes s ns) k = Some (val (heap s a))"
    by simp_all
  from i have c: "chain s ns" and dk: "distinct (map fst (nodes s ns))"
    and dc: "distinct (map fst (cache s))"
    and ix: "set (cache s) = (\<lambda>a. (key (heap s a), a)) ` set ns"
    by (simp_all add: inv_on_def)
  from remove_node_chain [OF c a] obtain s1 where
    r: "remove_node (Some a) s = Inr s1" and c1: "chain s1 (remove1 a ns)" and sm1: "same s s1"
    by blast
  from c a have "a \<noteq> head s" "a \<noteq> tail s" "distinct ns" "a < fresh s"
    by (auto simp add: chain_def)
  with sm1 have "a \<notin> set (head s1 # remove1 a ns @ [tail s1])" and "a < fresh s1"
    by (simp_all add: same_def)
  from add_node_chain [OF c1 this] obtain s2 where
    ad: "add_node a s1 = Inr s2" and c2: "chain s2 (a # remove1 a ns)" and sm2: "same s1 s2"
    by blast
  from sm1 sm2 have sm: "same s s2" by (simp add: same_def)
  let ?ns = "a # remove1 a ns"
  have g: "get k s = Inr (val (heap s a), s2)"
    using Some r ad sm by (simp add: get_def same_def)
  have n2: "nodes s2 ?ns = (k, val (heap s a)) # filter (\<lambda>p. fst p \<noteq> k) (nodes s ns)"
    using same_nodes [OF sm] nodes_remove1 [of s ns a] dk a ka
    by (simp add: fst_nodes) (simp add: nodes_def)
  have "distinct (map fst ((k, val (heap s a)) # filter (\<lambda>p. fst p \<noteq> k) (nodes s ns)))"
    using dk by (auto simp add: distinct_map_filter)
  with n2 have d1: "distinct (map fst (nodes s2 ?ns))" by simp
  from a \<open>distinct ns\<close> have "set ?ns = set ns" by auto
  with ix sm have d3: "set (cache s2) = (\<lambda>a. (key (heap s2 a), a)) ` set ?ns"
    by (simp add: same_def)
  from c2 d1 dc d3 sm have "inv_on s2 ?ns" by (simp add: inv_on_def same_def)
  moreover have "get_list k (nodes s ns) = (val (heap s a), nodes s2 ?ns)"
    using m n2 by (simp add: get_list_def)
  ultimately show ?thesis using g sm by (auto simp add: same_def)
qed

lemma put_unlink:
  assumes i: "inv_on s ns"
  shows "\<exists>s1 ns1.
           (case map_of (cache s) k of
              Some old \<Rightarrow> remove_node (Some old) s
            | None \<Rightarrow> Inr s) = Inr s1 \<and>
           chain s1 ns1 \<and> same s s1 \<and>
           nodes s ns1 = filter (\<lambda>p. fst p \<noteq> k) (nodes s ns) \<and>
           set ns1 = {a \<in> set ns. key (heap s a) \<noteq> k}"
proof (cases "map_of (cache s) k")
  case None
  from i have c: "chain s ns" by (simp add: inv_on_def)
  from None have "k \<notin> fst ` set (cache s)" by (simp add: map_of_eq_None_iff)
  with inv_on_keys [OF i] have nk: "k \<notin> (\<lambda>a. key (heap s a)) ` set ns"
    by (simp add: nodes_def image_image)
  then have "nodes s ns = filter (\<lambda>p. fst p \<noteq> k) (nodes s ns)"
    by (simp add: nodes_absent)
  moreover from nk have "set ns = {a \<in> set ns. key (heap s a) \<noteq> k}" by auto
  moreover have "same s s" by (simp add: same_def)
  ultimately show ?thesis using None c by auto
next
  case (Some a)
  from inv_on_lookup [OF i Some] have a: "a \<in> set ns" and ka: "key (heap s a) = k"
    by simp_all
  from i have c: "chain s ns" and dk: "distinct (map fst (nodes s ns))"
    by (simp_all add: inv_on_def)
  from c have dn: "distinct ns" by (simp add: chain_def)
  from remove_node_chain [OF c a] obtain s1 where
    r: "remove_node (Some a) s = Inr s1" and c1: "chain s1 (remove1 a ns)" and sm1: "same s s1"
    by blast
  have "nodes s (remove1 a ns) = filter (\<lambda>p. fst p \<noteq> k) (nodes s ns)"
    using nodes_remove1 [of s ns a] dk a ka by (simp add: fst_nodes)
  moreover from dk have "inj_on (\<lambda>a. key (heap s a)) (set ns)"
    by (simp add: fst_nodes distinct_map)
  with a ka dn have "set (remove1 a ns) = {a \<in> set ns. key (heap s a) \<noteq> k}"
    by (auto simp add: inj_on_def)
  ultimately show ?thesis using Some r c1 sm1 by auto
qed

lemma put_link:
  assumes c: "chain s1 ns1"
  shows "\<exists>s3. add_node (fresh s1)
                 (s1\<lparr>heap := (heap s1)(fresh s1 := Node k v), fresh := Suc (fresh s1)\<rparr>) = Inr s3 \<and>
              chain s3 (fresh s1 # ns1) \<and> capacity s3 = capacity s1 \<and> cache s3 = cache s1 \<and>
              (\<forall>a. key (heap s3 a) = (if a = fresh s1 then k else key (heap s1 a))) \<and>
              (\<forall>a. val (heap s3 a) = (if a = fresh s1 then v else val (heap s1 a)))"
proof -
  let ?s2 = "s1\<lparr>heap := (heap s1)(fresh s1 := Node k v), fresh := Suc (fresh s1)\<rparr>"
  have c2: "chain ?s2 ns1" using c by (rule alloc_chain)
  from c have "\<forall>a \<in> set (head s1 # ns1 @ [tail s1]). a < fresh s1"
    by (simp add: chain_def)
  then have "fresh s1 \<notin> set (head ?s2 # ns1 @ [tail ?s2])" by auto
  moreover have "fresh s1 < fresh ?s2" by simp
  ultimately obtain s3 where ad: "add_node (fresh s1) ?s2 = Inr s3"
    and c3: "chain s3 (fresh s1 # ns1)" and sm: "same ?s2 s3"
    using add_node_chain [OF c2] by blast
  from sm have "capacity s3 = capacity s1" "cache s3 = cache s1"
    "\<forall>a. key (heap s3 a) = (if a = fresh s1 then k else key (heap s1 a))"
    "\<forall>a. val (heap s3 a) = (if a = fresh s1 then v else val (heap s1 a))"
    by (simp_all add: same_def Node_def)
  with ad c3 show ?thesis by blast
qed

lemma put_inv:
  assumes i: "inv_on s ns"
  shows "\<exists>s' ns'. put k v s = Inr s' \<and> inv_on s' ns' \<and> capacity s' = capacity s \<and>
           nodes s' ns' = put_list (capacity s) k v (nodes s ns)"
proof -
  from i have dk: "distinct (map fst (nodes s ns))"
    and dc: "distinct (map fst (cache s))"
    and ix: "set (cache s) = (\<lambda>a. (key (heap s a), a)) ` set ns"
    by (simp_all add: inv_on_def)
  from put_unlink [OF i, of k] obtain s1 ns1 where
    u: "(case map_of (cache s) k of Some old \<Rightarrow> remove_node (Some old) s | None \<Rightarrow> Inr s) = Inr s1"
    and c1: "chain s1 ns1" and sm1: "same s s1"
    and n1: "nodes s ns1 = filter (\<lambda>p. fst p \<noteq> k) (nodes s ns)"
    and s1: "set ns1 = {a \<in> set ns. key (heap s a) \<noteq> k}"
    by blast
  define n where "n = fresh s"
  from sm1 have fr: "fresh s1 = n" by (simp add: same_def n_def)
  from put_link [OF c1, of k v] fr obtain s3 where
    ad: "add_node n (s1\<lparr>heap := (heap s1)(n := Node k v), fresh := Suc n\<rparr>) = Inr s3"
    and c3: "chain s3 (n # ns1)" and cp3: "capacity s3 = capacity s1"
    and ca3: "cache s3 = cache s1"
    and k3: "\<forall>a. key (heap s3 a) = (if a = n then k else key (heap s1 a))"
    and v3: "\<forall>a. val (heap s3 a) = (if a = n then v else val (heap s1 a))"
    by auto
  from c3 have nn: "n \<notin> set ns1" by (simp add: chain_def)
  define s4 where "s4 = s3\<lparr>cache := AList.update k n (cache s3)\<rparr>"
  let ?ns = "n # ns1"
  let ?ys = "(k, v) # filter (\<lambda>p. fst p \<noteq> k) (nodes s ns)"
  have "nodes s3 ns1 = nodes s ns1"
    using k3 v3 nn sm1 by (auto simp add: nodes_def same_def)
  then have n4: "nodes s4 ?ns = ?ys"
    using k3 v3 n1 by (simp add: s4_def) (simp add: nodes_def)
  have "distinct (map fst ?ys)"
    using dk by (auto simp add: distinct_map_filter)
  with n4 have d1: "distinct (map fst (nodes s4 ?ns))" by simp
  have d2: "distinct (map fst (cache s4))"
    using dc ca3 sm1 by (simp add: s4_def same_def distinct_update)
  have "set (cache s4) = insert (k, n) {p \<in> set (cache s). fst p \<noteq> k}"
    using dc ca3 sm1 by (simp add: s4_def same_def set_update_distinct)
  also have "{p \<in> set (cache s). fst p \<noteq> k} = (\<lambda>a. (key (heap s a), a)) ` set ns1"
    using ix s1 by auto
  also have "\<dots> = (\<lambda>a. (key (heap s4 a), a)) ` set ns1"
    using k3 nn sm1 by (auto simp add: s4_def same_def)
  finally have d3: "set (cache s4) = (\<lambda>a. (key (heap s4 a), a)) ` set ?ns"
    using k3 by (simp add: s4_def)
  from c3 d1 d2 d3 have i4: "inv_on s4 ?ns" by (simp add: inv_on_def s4_def)
  have cp4: "capacity s4 = capacity s" using cp3 sm1 by (simp add: s4_def same_def)
  have len: "length (cache s4) = length ?ys"
    using inv_on_length [OF i4] n4 by (metis length_map nodes_def)
  have p: "put k v s = (if int (length (cache s4)) > capacity s4 then evict s4 else Inr s4)"
    using u ad fr by (simp add: put_def Let_def s4_def)
  show ?thesis
  proof (cases "int (length (cache s4)) > capacity s4")
    case True
    from evict_inv [OF i4] obtain s' where
      "evict s4 = Inr s'" "inv_on s' (butlast ?ns)" "capacity s' = capacity s4"
      "nodes s' (butlast ?ns) = butlast (nodes s4 ?ns)"
      by blast
    moreover have "put_list (capacity s) k v (nodes s ns) = butlast ?ys"
      using True len cp4 by (simp add: put_list_def Let_def)
    ultimately show ?thesis using p True n4 cp4 by (metis (no_types, lifting))
  next
    case False
    then have "put_list (capacity s) k v (nodes s ns) = ?ys"
      using len cp4 by (simp add: put_list_def Let_def)
    with False p i4 n4 cp4 show ?thesis by (metis (no_types, lifting))
  qed
qed

subsection \<open>Sequences of calls\<close>

lemma inv_on_wf: "inv_on s ns \<Longrightarrow> well_formed s \<and> entries s = nodes s ns"
  using order_chain [of s ns] by (simp add: well_formed_def entries_def inv_on_def)

lemma wf_inv_on: "well_formed s \<Longrightarrow> inv_on s (order s)"
  by (simp add: well_formed_def)

lemma get_wf:
  assumes "well_formed s"
  shows "\<exists>r s'. get k s = Inr (r, s') \<and> well_formed s' \<and> capacity s' = capacity s \<and>
           cache s' = cache s \<and> (r, entries s') = get_list k (entries s)"
proof -
  from get_inv [OF wf_inv_on [OF assms], of k] obtain r s' ns' where
    "get k s = Inr (r, s')" "inv_on s' ns'" "capacity s' = capacity s" "cache s' = cache s"
    "(r, nodes s' ns') = get_list k (nodes s (order s))"
    by blast
  then show ?thesis using inv_on_wf [of s' ns'] by (auto simp add: entries_def)
qed

lemma put_wf:
  assumes "well_formed s"
  shows "\<exists>s'. put k v s = Inr s' \<and> well_formed s' \<and> capacity s' = capacity s \<and>
           entries s' = put_list (capacity s) k v (entries s)"
proof -
  from put_inv [OF wf_inv_on [OF assms], of k v] obtain s' ns' where
    "put k v s = Inr s'" "inv_on s' ns'" "capacity s' = capacity s"
    "nodes s' ns' = put_list (capacity s) k v (nodes s (order s))"
    by blast
  then show ?thesis using inv_on_wf [of s' ns'] by (auto simp add: entries_def)
qed

lemma step_wf:
  assumes "well_formed s"
  shows "\<exists>s'. step c s = Inr s' \<and> well_formed s' \<and> capacity s' = capacity s \<and>
           entries s' = step_list (capacity s) c (entries s)"
proof (cases c)
  case (Get k)
  from get_wf [OF assms, of k] obtain r s' where
    "get k s = Inr (r, s')" "well_formed s'" "capacity s' = capacity s"
    "(r, entries s') = get_list k (entries s)"
    by blast
  then show ?thesis using Get by (auto simp add: snd_def split: prod.splits)
next
  case (Put k v)
  with put_wf [OF assms, of k v] show ?thesis by simp
qed

lemma run_wf:
  "well_formed s \<Longrightarrow> \<exists>s'. run cs s = Inr s' \<and> well_formed s' \<and> capacity s' = capacity s \<and>
           entries s' = fold (step_list (capacity s)) cs (entries s)"
proof (induction cs arbitrary: s)
  case Nil
  then show ?case by simp
next
  case (Cons c cs)
  from step_wf [OF Cons.prems, of c] obtain s1 where
    s1: "step c s = Inr s1" "well_formed s1" "capacity s1 = capacity s"
    "entries s1 = step_list (capacity s) c (entries s)"
    by blast
  from Cons.IH [OF s1(2)] s1 show ?case by simp
qed

lemma LRUCache_inv:
  "\<exists>s. LRUCache c = Inr s \<and> inv_on s [] \<and> capacity s = c \<and> cache s = []"
  by (simp add: LRUCache_def Let_def inv_on_def chain_def nodes_def Node_def)

lemma calls_wf:
  "\<exists>s. calls c cs = Inr s \<and> well_formed s \<and> capacity s = c \<and>
        entries s = fold (step_list c) cs []"
proof -
  from LRUCache_inv [of c] obtain s0 where
    s0: "LRUCache c = Inr s0" "inv_on s0 []" "capacity s0 = c"
    by blast
  from inv_on_wf [OF s0(2)] have "well_formed s0" "entries s0 = []" by (simp_all add: nodes_def)
  with run_wf [of s0 cs] s0 show ?thesis by (simp add: calls_def)
qed

lemma wf_cache_keys: "well_formed s \<Longrightarrow> fst ` set (cache s) = fst ` set (entries s)"
  using inv_on_keys [of s "order s"] by (simp add: well_formed_def entries_def)

lemma wf_cache_length: "well_formed s \<Longrightarrow> length (cache s) = length (entries s)"
  using inv_on_length [of s "order s"] by (simp add: well_formed_def entries_def nodes_def)

lemma wf_distinct: "well_formed s \<Longrightarrow> distinct (map fst (entries s))"
  by (simp add: well_formed_def entries_def inv_on_def)

section \<open>The capacity bound\<close>

lemma get_list_length:
  "length (snd (get_list k xs)) \<le> length xs"
proof (cases "map_of xs k")
  case None
  then show ?thesis by (simp add: get_list_def)
next
  case (Some v)
  then have "(k, v) \<in> set xs" by (rule map_of_SomeD)
  then have "length (filter (\<lambda>p. fst p \<noteq> k) xs) < length xs"
    by (intro length_filter_less [of "(k, v)"]) auto
  with Some show ?thesis by (simp add: get_list_def)
qed

lemma put_list_length:
  assumes "int (length xs) \<le> c"
  shows "int (length (put_list c k v xs)) \<le> c"
proof -
  have "length (filter (\<lambda>p. fst p \<noteq> k) xs) \<le> length xs" by simp
  with assms have "int (length (filter (\<lambda>p. fst p \<noteq> k) xs)) \<le> c" by linarith
  then show ?thesis by (simp add: put_list_def Let_def)
qed

lemma step_list_length:
  assumes "int (length xs) \<le> c"
  shows "int (length (step_list c x xs)) \<le> c"
proof (cases x)
  case (Get k)
  from get_list_length [of k xs] assms have "int (length (snd (get_list k xs))) \<le> c"
    by linarith
  with Get show ?thesis by simp
next
  case (Put k v)
  with assms show ?thesis by (simp add: put_list_length)
qed

lemma fold_step_list_length:
  "int (length xs) \<le> c \<Longrightarrow> int (length (fold (step_list c) cs xs)) \<le> c"
  by (induction cs arbitrary: xs) (simp_all add: step_list_length)

text \<open>
  Claim C1. A cache is constructed with a positive capacity and receives any sequence of
  \<open>get\<close> and \<open>put\<close> calls. No call raises, and the dictionary holds at most
  \<open>capacity\<close> entries afterwards. The sequence is arbitrary, so the bound holds after
  each call of a longer sequence as well.
\<close>

theorem capacity_bound:
  assumes "0 < c"
  shows "\<exists>s. calls c cs = Inr s \<and> int (length (cache s)) \<le> c"
proof -
  from calls_wf [of c cs] obtain s where
    s: "calls c cs = Inr s" "well_formed s" "entries s = fold (step_list c) cs []"
    by blast
  from assms have "int (length (fold (step_list c) cs [])) \<le> c"
    by (intro fold_step_list_length) simp
  with s show ?thesis by (simp add: wf_cache_length)
qed

theorem capacity_bound_witness:
  "(0::int) < 2 \<and> (\<exists>s. calls 2 [Put 1 10, Put 2 20, Get 1, Put 3 30] = Inr s \<and> int (length (cache s)) \<le> 2)"
  using capacity_bound [of 2 "[Put 1 10, Put 2 20, Get 1, Put 3 30]"] by simp

section \<open>Construction and the capacities that are not positive\<close>

lemma wf_empty:
  assumes w: "well_formed s" and e: "entries s = []"
  shows "cache s = [] \<and> order s = [] \<and> head s \<noteq> tail s \<and>
         nxt (heap s (head s)) = Some (tail s) \<and> prev (heap s (tail s)) = Some (head s)"
proof -
  from e have o: "order s = []" by (simp add: entries_def nodes_def)
  from wf_cache_length [OF w] e have "cache s = []" by simp
  moreover from w o have "chain s []" by (simp add: well_formed_def inv_on_def)
  ultimately show ?thesis using o by (simp add: chain_def)
qed

lemma remove_node_fresh: "remove_node a s = Inr s' \<Longrightarrow> fresh s' = fresh s"
  by (auto simp add: remove_node_def Let_def split: option.splits)

lemma add_node_fresh: "add_node n s = Inr s' \<Longrightarrow> fresh s' = fresh s"
  by (auto simp add: add_node_def Let_def split: option.splits)

lemma evict_fresh: "evict s = Inr s' \<Longrightarrow> fresh s' = fresh s"
  by (auto simp add: evict_def Let_def split: option.splits sum.splits if_splits
      dest: remove_node_fresh)

lemma put_fresh:
  assumes "put k v s = Inr s'"
  shows "fresh s' = Suc (fresh s)"
proof -
  from assms obtain s1 s3 where
    u: "(case map_of (cache s) k of Some old \<Rightarrow> remove_node (Some old) s | None \<Rightarrow> Inr s) = Inr s1"
    and a: "add_node (fresh s1) (s1\<lparr>heap := (heap s1)(fresh s1 := Node k v), fresh := Suc (fresh s1)\<rparr>) = Inr s3"
    and e: "s' = s3\<lparr>cache := AList.update k (fresh s1) (cache s3)\<rparr> \<or>
            evict (s3\<lparr>cache := AList.update k (fresh s1) (cache s3)\<rparr>) = Inr s'"
    by (auto simp add: put_def Let_def split: sum.splits if_splits)
  from u have "fresh s1 = fresh s"
    by (auto split: option.splits dest: remove_node_fresh)
  moreover from a have "fresh s3 = Suc (fresh s1)" by (auto dest: add_node_fresh)
  moreover from e have "fresh s' = fresh s3" by (auto dest: evict_fresh)
  ultimately show ?thesis by simp
qed

lemma put_on_empty:
  assumes c: "cache s = []" and ht: "head s \<noteq> tail s"
    and hn: "nxt (heap s (head s)) = Some (tail s)"
    and tp: "prev (heap s (tail s)) = Some (head s)"
    and hf: "head s < fresh s" and tf: "tail s < fresh s" and cp: "capacity s \<le> 0"
  shows "\<exists>s3 s4 s'.
           add_node (fresh s) (s\<lparr>heap := (heap s)(fresh s := Node k v), fresh := Suc (fresh s)\<rparr>)
             = Inr s3 \<and>
           s4 = s3\<lparr>cache := AList.update k (fresh s) (cache s3)\<rparr> \<and>
           cache s4 = [(k, fresh s)] \<and> order s4 = [fresh s] \<and>
           nxt (heap s4 (head s4)) = Some (fresh s) \<and>
           prev (heap s4 (tail s4)) = Some (fresh s) \<and>
           capacity s4 < int (length (cache s4)) \<and>
           evict s4 = Inr s' \<and> put k v s = Inr s' \<and>
           heap s' (fresh s) = \<lparr>key = k, val = v, prev = Some (head s), nxt = Some (tail s)\<rparr> \<and>
           fresh s' = Suc (fresh s) \<and> cache s' = [] \<and> order s' = [] \<and>
           head s' = head s \<and> tail s' = tail s \<and>
           nxt (heap s' (head s')) = Some (tail s') \<and> prev (heap s' (tail s')) = Some (head s')"
proof -
  from hf tf have n: "head s \<noteq> fresh s" "tail s \<noteq> fresh s" by simp_all
  let ?s2 = "s\<lparr>heap := (heap s)(fresh s := Node k v), fresh := Suc (fresh s)\<rparr>"
  define s3 where "s3 = projr (add_node (fresh s) ?s2)"
  have a: "add_node (fresh s) ?s2 = Inr s3"
    unfolding s3_def using hn n by (simp add: add_node_def Let_def)
  define s4 where "s4 = s3\<lparr>cache := AList.update k (fresh s) (cache s3)\<rparr>"
  define s' where "s' = projr (evict s4)"
  have f3: "cache s3 = []" "capacity s3 = capacity s" "head s3 = head s" "tail s3 = tail s"
    "fresh s3 = Suc (fresh s)"
    unfolding s3_def using hn n c by (simp_all add: add_node_def Let_def)
  have h3: "heap s3 (head s) = (heap s (head s))\<lparr>nxt := Some (fresh s)\<rparr>"
    "heap s3 (tail s) = (heap s (tail s))\<lparr>prev := Some (fresh s)\<rparr>"
    "heap s3 (fresh s) = \<lparr>key = k, val = v, prev = Some (head s), nxt = Some (tail s)\<rparr>"
    unfolding s3_def using hn n ht by (simp_all add: add_node_def Let_def Node_def)
  have f4: "cache s4 = [(k, fresh s)]" "capacity s4 = capacity s" "head s4 = head s"
    "tail s4 = tail s" "fresh s4 = Suc (fresh s)" "heap s4 = heap s3"
    unfolding s4_def using f3 by simp_all
  have e: "evict s4 = Inr s'"
    unfolding s'_def using f4 h3 n ht by (simp add: evict_def remove_node_def Let_def)
  have f': "cache s' = []" "head s' = head s" "tail s' = tail s" "fresh s' = Suc (fresh s)"
    unfolding s'_def using f4 h3 n ht by (simp_all add: evict_def remove_node_def Let_def)
  have h': "heap s' (fresh s) = \<lparr>key = k, val = v, prev = Some (head s), nxt = Some (tail s)\<rparr>"
    "nxt (heap s' (head s)) = Some (tail s)" "prev (heap s' (tail s)) = Some (head s)"
    unfolding s'_def using f4 h3 n ht by (simp_all add: evict_def remove_node_def Let_def)
  have lt: "capacity s4 < int (length (cache s4))" using f4 cp by simp
  have "chain s4 [fresh s]" using f4 h3 n ht hf tf by (simp add: chain_def)
  then have o4: "order s4 = [fresh s]" by (rule order_chain)
  have "chain s' []" using f' h' ht hf tf by (simp add: chain_def)
  then have o': "order s' = []" by (rule order_chain)
  have p: "put k v s = Inr s'"
    using c a e lt by (simp add: put_def Let_def s4_def)
  show ?thesis
  proof (rule exI [of _ s3], rule exI [of _ s4], rule exI [of _ s'], intro conjI)
    show "add_node (fresh s) ?s2 = Inr s3" by (fact a)
    show "s4 = s3\<lparr>cache := AList.update k (fresh s) (cache s3)\<rparr>" by (fact s4_def)
    show "cache s4 = [(k, fresh s)]" by (fact f4(1))
    show "order s4 = [fresh s]" by (fact o4)
    show "nxt (heap s4 (head s4)) = Some (fresh s)" using f4 h3 by simp
    show "prev (heap s4 (tail s4)) = Some (fresh s)" using f4 h3 by simp
    show "capacity s4 < int (length (cache s4))" by (fact lt)
    show "evict s4 = Inr s'" by (fact e)
    show "put k v s = Inr s'" by (fact p)
    show "heap s' (fresh s) = \<lparr>key = k, val = v, prev = Some (head s), nxt = Some (tail s)\<rparr>"
      by (fact h'(1))
    show "fresh s' = Suc (fresh s)" by (fact f'(4))
    show "cache s' = []" by (fact f'(1))
    show "order s' = []" by (fact o')
    show "head s' = head s" by (fact f'(2))
    show "tail s' = tail s" by (fact f'(3))
    show "nxt (heap s' (head s')) = Some (tail s')" using h' f' by simp
    show "prev (heap s' (tail s')) = Some (head s')" using h' f' by simp
  qed
qed

text \<open>
  Claim C9. Construction with capacity 0 succeeds. After any sequence of calls on such a
  cache no call has raised, the dictionary is empty, the list holds the two sentinels
  only, linked to each other, and \<open>get\<close> of any key returns \<open>-1\<close> and leaves the
  cache as it is. Every further \<open>put(k, v)\<close> inserts its node and evicts this very node
  within the call: the node is allocated at the address \<open>fresh\<close> and linked after the
  head; with the dictionary entry stored, the cache \<open>s4\<close> holds exactly this entry, the
  node is the only one of the list and the one before the tail sentinel, and the length
  exceeds the capacity; \<open>put\<close> returns what \<open>evict\<close> makes of \<open>s4\<close>. Afterwards the
  dictionary and the list are empty again, the sentinels are linked to each other, and
  the evicted node still carries \<open>k\<close>, \<open>v\<close> and its links to the two sentinels.
\<close>

theorem capacity_zero:
  "\<exists>s0 s. LRUCache 0 = Inr s0 \<and> run cs s0 = Inr s \<and>
     cache s = [] \<and> order s = [] \<and>
     nxt (heap s (head s)) = Some (tail s) \<and> prev (heap s (tail s)) = Some (head s) \<and>
     (\<forall>k. get k s = Inr (- 1, s)) \<and>
     (\<forall>k v. \<exists>s3 s4 s'.
        add_node (fresh s) (s\<lparr>heap := (heap s)(fresh s := Node k v), fresh := Suc (fresh s)\<rparr>)
          = Inr s3 \<and>
        s4 = s3\<lparr>cache := AList.update k (fresh s) (cache s3)\<rparr> \<and>
        cache s4 = [(k, fresh s)] \<and> order s4 = [fresh s] \<and>
        nxt (heap s4 (head s4)) = Some (fresh s) \<and>
        prev (heap s4 (tail s4)) = Some (fresh s) \<and>
        capacity s4 < int (length (cache s4)) \<and>
        evict s4 = Inr s' \<and> put k v s = Inr s' \<and>
        heap s' (fresh s) = \<lparr>key = k, val = v, prev = Some (head s), nxt = Some (tail s)\<rparr> \<and>
        fresh s' = Suc (fresh s) \<and> cache s' = [] \<and> order s' = [] \<and>
        head s' = head s \<and> tail s' = tail s \<and>
        nxt (heap s' (head s')) = Some (tail s') \<and> prev (heap s' (tail s')) = Some (head s'))"
proof -
  from calls_wf [of 0 cs] obtain s where
    s: "calls 0 cs = Inr s" "well_formed s" "capacity s = 0"
    "entries s = fold (step_list 0) cs []"
    by blast
  have "int (length (fold (step_list 0) cs [])) \<le> 0"
    by (intro fold_step_list_length) simp
  with s have e: "entries s = []" by simp
  from wf_empty [OF s(2) e] have c: "cache s = []" and o: "order s = []"
    and ht: "head s \<noteq> tail s" and hn: "nxt (heap s (head s)) = Some (tail s)"
    and tp: "prev (heap s (tail s)) = Some (head s)"
    by simp_all
  from s(2) o have "chain s []" by (simp add: well_formed_def inv_on_def)
  then have hf: "head s < fresh s" and tf: "tail s < fresh s" by (simp_all add: chain_def)
  from s(3) have cp: "capacity s \<le> 0" by simp
  from s(1) obtain s0 where s0: "LRUCache 0 = Inr s0" "run cs s0 = Inr s"
    by (auto simp add: calls_def split: sum.splits)
  have g: "\<forall>k. get k s = Inr (- 1, s)" using c by (simp add: get_def)
  note p = put_on_empty [OF c ht hn tp hf tf cp]
  show ?thesis
  proof (rule exI [of _ s0], rule exI [of _ s], intro conjI allI)
    show "LRUCache 0 = Inr s0" by (fact s0(1))
    show "run cs s0 = Inr s" by (fact s0(2))
    show "cache s = []" by (fact c)
    show "order s = []" by (fact o)
    show "nxt (heap s (head s)) = Some (tail s)" by (fact hn)
    show "prev (heap s (tail s)) = Some (head s)" by (fact tp)
    show "get k s = Inr (- 1, s)" for k using g by simp
  next
    fix k v
    from p [of k v]
    show "\<exists>s3 s4 s'.
        add_node (fresh s) (s\<lparr>heap := (heap s)(fresh s := Node k v), fresh := Suc (fresh s)\<rparr>)
          = Inr s3 \<and>
        s4 = s3\<lparr>cache := AList.update k (fresh s) (cache s3)\<rparr> \<and>
        cache s4 = [(k, fresh s)] \<and> order s4 = [fresh s] \<and>
        nxt (heap s4 (head s4)) = Some (fresh s) \<and>
        prev (heap s4 (tail s4)) = Some (fresh s) \<and>
        capacity s4 < int (length (cache s4)) \<and>
        evict s4 = Inr s' \<and> put k v s = Inr s' \<and>
        heap s' (fresh s) = \<lparr>key = k, val = v, prev = Some (head s), nxt = Some (tail s)\<rparr> \<and>
        fresh s' = Suc (fresh s) \<and> cache s' = [] \<and> order s' = [] \<and>
        head s' = head s \<and> tail s' = tail s \<and>
        nxt (heap s' (head s')) = Some (tail s') \<and> prev (heap s' (tail s')) = Some (head s')" .
  qed
qed

text \<open>
  Claim C5, as amended. \<open>__init__\<close> does not look at the capacity: for every
  capacity, positive or not, construction succeeds and yields a cache with that capacity,
  an empty dictionary and a list of the two sentinels only, linked to each other.
\<close>

theorem construction_always_succeeds:
  "\<exists>s. LRUCache c = Inr s \<and> capacity s = c \<and> cache s = [] \<and> order s = [] \<and>
     head s \<noteq> tail s \<and>
     nxt (heap s (head s)) = Some (tail s) \<and> prev (heap s (tail s)) = Some (head s)"
proof -
  from LRUCache_inv [of c] obtain s where
    s: "LRUCache c = Inr s" "inv_on s []" "capacity s = c" "cache s = []"
    by blast
  from inv_on_wf [OF s(2)] have "well_formed s" "entries s = []" by (simp_all add: nodes_def)
  from wf_empty [OF this] s show ?thesis by simp
qed

text \<open>
  Claim C5 as stated fails: construction with capacity 0 raises nothing and produces a
  cache.
\<close>

theorem construction_capacity_zero: "\<not> isl (LRUCache 0) \<and> cache (projr (LRUCache 0)) = []"
  by (simp add: LRUCache_def Let_def)

section \<open>Lookups of absent keys\<close>

lemma get_list_keys: "fst ` set (snd (get_list k xs)) \<subseteq> fst ` set xs"
proof (cases "map_of xs k")
  case None
  then show ?thesis by (simp add: get_list_def)
next
  case (Some v)
  then have "(k, v) \<in> set xs" by (rule map_of_SomeD)
  then have kin: "k \<in> fst ` set xs" by (rule rev_image_eqI) simp
  have "set (filter (\<lambda>p. fst p \<noteq> k) xs) \<subseteq> set xs" by simp
  then have "fst ` set (filter (\<lambda>p. fst p \<noteq> k) xs) \<subseteq> fst ` set xs"
    by (rule image_mono)
  moreover from Some have "snd (get_list k xs) = (k, v) # filter (\<lambda>p. fst p \<noteq> k) xs"
    by (simp add: get_list_def)
  ultimately show ?thesis using kin by simp
qed

lemma set_butlast_subset: "set (butlast ys) \<subseteq> set ys"
  by (rule subsetI) (erule in_set_butlastD)

lemma put_list_keys: "fst ` set (put_list c k v xs) \<subseteq> insert k (fst ` set xs)"
proof -
  let ?ys = "(k, v) # filter (\<lambda>p. fst p \<noteq> k) xs"
  have "put_list c k v xs = butlast ?ys \<or> put_list c k v xs = ?ys"
    by (simp only: put_list_def Let_def split: if_split) blast
  then have "set (put_list c k v xs) \<subseteq> set ?ys"
    using set_butlast_subset [of ?ys] by (elim disjE) (simp_all only: subset_refl)
  also have "\<dots> \<subseteq> insert (k, v) (set xs)" by auto
  finally have "fst ` set (put_list c k v xs) \<subseteq> fst ` insert (k, v) (set xs)"
    by (rule image_mono)
  then show ?thesis by simp
qed

lemma step_list_keys:
  assumes "k \<in> fst ` set (step_list c x xs)"
  shows "k \<in> fst ` set xs \<or> puts k x"
proof (cases x)
  case (Get k')
  with assms get_list_keys [of k' xs] show ?thesis by auto
next
  case (Put k' v)
  with assms put_list_keys [of c k' v xs] show ?thesis by auto
qed

lemma fold_step_list_keys:
  "k \<in> fst ` set (fold (step_list c) cs xs) \<Longrightarrow> k \<in> fst ` set xs \<or> (\<exists>x \<in> set cs. puts k x)"
proof (induction cs arbitrary: xs)
  case Nil
  then show ?case by simp
next
  case (Cons x cs)
  from Cons.IH [of "step_list c x xs"] Cons.prems step_list_keys [of k c x xs]
  show ?case by auto
qed

lemma get_absent:
  assumes "k \<notin> fst ` set (cache s)"
  shows "get k s = Inr (- 1, s)"
proof -
  from assms have "map_of (cache s) k = None" by (simp add: map_of_eq_None_iff)
  then show ?thesis by (simp add: get_def)
qed

lemma run_replicate_get:
  "k \<notin> fst ` set (cache s) \<Longrightarrow> run (replicate n (Get k)) s = Inr s"
  by (induction n) (simp_all add: get_absent)

text \<open>
  Claim C7. Let a cache have received any sequence of calls, and let \<open>k\<close> be a key
  that no \<open>put\<close> of the sequence inserted, or that is not in the dictionary (any more).
  Then \<open>get\<close> returns \<open>-1\<close> and the cache after the call is the cache before it,
  dictionary, store and list alike; so any number of repetitions changes nothing either.
\<close>

theorem absent_stable:
  assumes "calls c cs = Inr s"
    and "list_all (\<lambda>x. \<not> puts k x) cs \<or> k \<notin> fst ` set (cache s)"
  shows "get k s = Inr (- 1, s) \<and> run (replicate n (Get k)) s = Inr s"
proof -
  from calls_wf [of c cs] assms(1) have w: "well_formed s"
    and e: "entries s = fold (step_list c) cs []"
    by auto
  have "k \<notin> fst ` set (cache s)"
  proof
    assume "k \<in> fst ` set (cache s)"
    with wf_cache_keys [OF w] e have "k \<in> fst ` set (fold (step_list c) cs [])" by simp
    from fold_step_list_keys [OF this] have "\<exists>x \<in> set cs. puts k x" by simp
    with assms(2) \<open>k \<in> fst ` set (cache s)\<close> show False by (auto simp add: list_all_iff)
  qed
  then show ?thesis by (simp add: run_replicate_get get_absent)
qed

theorem absent_stable_witness:
  "calls 1 [Put 1 10, Put 2 20] = Inr (projr (calls 1 [Put 1 10, Put 2 20])) \<and>
   get 1 (projr (calls 1 [Put 1 10, Put 2 20])) = Inr (- 1, projr (calls 1 [Put 1 10, Put 2 20])) \<and>
   get 3 (projr (calls 1 [Put 1 10, Put 2 20])) = Inr (- 1, projr (calls 1 [Put 1 10, Put 2 20])) \<and>
   run (replicate 5 (Get 1)) (projr (calls 1 [Put 1 10, Put 2 20])) =
     Inr (projr (calls 1 [Put 1 10, Put 2 20]))"
proof -
  let ?cs = "[Put 1 10, Put 2 20]"
  let ?s = "projr (calls 1 ?cs)"
  from calls_wf [of 1 ?cs] have r: "calls 1 ?cs = Inr ?s" and w: "well_formed ?s"
    and e: "entries ?s = fold (step_list 1) ?cs []"
    by auto
  from e have "entries ?s = [(2, 20)]" by (simp add: put_list_def)
  with wf_cache_keys [OF w] have k: "fst ` set (cache ?s) = {2}" by simp
  from k have a: "list_all (\<lambda>x. \<not> puts 1 x) ?cs \<or> 1 \<notin> fst ` set (cache ?s)"
    by simp
  have b: "list_all (\<lambda>x. \<not> puts 3 x) ?cs \<or> 3 \<notin> fst ` set (cache ?s)"
    by simp
  from absent_stable [OF r a, of 5] absent_stable [OF r b, of 0] r show ?thesis by simp
qed

section \<open>The recency scenario\<close>

lemma returns_wf:
  assumes "well_formed s"
  shows "returns k s = Inr (case map_of (entries s) k of None \<Rightarrow> - 1 | Some v \<Rightarrow> v)"
proof -
  from get_wf [OF assms, of k] obtain r s' where
    g: "get k s = Inr (r, s')" and e: "(r, entries s') = get_list k (entries s)"
    by blast
  from e have "r = (case map_of (entries s) k of None \<Rightarrow> - 1 | Some v \<Rightarrow> v)"
    by (simp add: get_list_def split: option.splits)
  with g show ?thesis by (simp add: returns_def)
qed

text \<open>
  Claim C3. On a new cache of capacity 2 and for three different keys, the calls
  \<open>put(k1, v1); put(k2, v2); get(k1); put(k3, v3)\<close> raise nothing and leave a cache
  from which \<open>k2\<close> is gone: \<open>get(k2)\<close> returns \<open>-1\<close>, \<open>get(k1)\<close> returns
  \<open>v1\<close> and \<open>get(k3)\<close> returns \<open>v3\<close>.
\<close>

theorem recency_scenario:
  assumes "distinct [k1, k2, k3]"
  shows "\<exists>s. calls 2 [Put k1 v1, Put k2 v2, Get k1, Put k3 v3] = Inr s \<and>
           k2 \<notin> fst ` set (cache s) \<and>
           returns k2 s = Inr (- 1) \<and> returns k1 s = Inr v1 \<and> returns k3 s = Inr v3"
proof -
  let ?cs = "[Put k1 v1, Put k2 v2, Get k1, Put k3 v3]"
  from calls_wf [of 2 ?cs] obtain s where
    s: "calls 2 ?cs = Inr s" and w: "well_formed s" and e: "entries s = fold (step_list 2) ?cs []"
    by blast
  from assms e have e': "entries s = [(k3, v3), (k1, v1)]"
    by (simp add: put_list_def get_list_def)
  with wf_cache_keys [OF w] assms have "k2 \<notin> fst ` set (cache s)" by simp
  moreover from e' assms have "returns k2 s = Inr (- 1)" "returns k1 s = Inr v1"
    "returns k3 s = Inr v3"
    by (simp_all add: returns_wf [OF w])
  ultimately show ?thesis using s by blast
qed

theorem recency_scenario_witness:
  "distinct [1, 2, 3 :: int] \<and>
   (\<exists>s. calls 2 [Put 1 10, Put 2 20, Get 1, Put 3 30] = Inr s \<and>
      2 \<notin> fst ` set (cache s) \<and>
      returns 2 s = Inr (- 1) \<and> returns 1 s = Inr 10 \<and> returns 3 s = Inr 30)"
proof -
  have d: "distinct [1, 2, 3 :: int]" by simp
  from recency_scenario [OF d, of 10 20 30] d show ?thesis by blast
qed

section \<open>Round trip\<close>

lemma get_list_set: "set (snd (get_list k xs)) \<subseteq> set xs"
proof (cases "map_of xs k")
  case None
  then show ?thesis by (simp add: get_list_def)
next
  case (Some v)
  then have "(k, v) \<in> set xs" by (rule map_of_SomeD)
  with Some show ?thesis by (simp add: get_list_def subset_iff)
qed

lemma put_list_set:
  assumes "p \<in> set (put_list c k v xs)"
  shows "p = (k, v) \<or> (p \<in> set xs \<and> fst p \<noteq> k)"
proof -
  let ?ys = "(k, v) # filter (\<lambda>p. fst p \<noteq> k) xs"
  have "put_list c k v xs = butlast ?ys \<or> put_list c k v xs = ?ys"
    by (simp only: put_list_def Let_def split: if_split) blast
  with assms have "p \<in> set ?ys" by (auto simp only: dest: in_set_butlastD)
  then show ?thesis by simp
qed

lemma step_list_last_put:
  assumes "\<forall>p \<in> set xs. fold (set_put (fst p)) cs r = Some (snd p)"
    and "p \<in> set (step_list c x xs)"
  shows "fold (set_put (fst p)) (cs @ [x]) r = Some (snd p)"
proof (cases x)
  case (Get k)
  with assms(2) get_list_set [of k xs] have "p \<in> set xs" by auto
  with assms(1) Get show ?thesis by simp
next
  case (Put k v)
  with assms(2) put_list_set [of p c k v xs]
  have "p = (k, v) \<or> (p \<in> set xs \<and> fst p \<noteq> k)" by simp
  with assms(1) Put show ?thesis by auto
qed

lemma fold_step_list_last_put:
  "\<forall>p \<in> set (fold (step_list c) cs []). last_put (fst p) cs = Some (snd p)"
proof (induction cs rule: rev_induct)
  case Nil
  then show ?case by simp
next
  case (snoc x cs)
  show ?case
  proof
    fix p assume "p \<in> set (fold (step_list c) (cs @ [x]) [])"
    then have "p \<in> set (step_list c x (fold (step_list c) cs []))" by simp
    with snoc.IH show "last_put (fst p) (cs @ [x]) = Some (snd p)"
      unfolding last_put_def by (intro step_list_last_put) auto
  qed
qed

lemma calls_last_put:
  assumes "calls c cs = Inr s" and "k \<in> fst ` set (cache s)"
  shows "\<exists>v. last_put k cs = Some v \<and> map_of (entries s) k = Some v"
proof -
  from calls_wf [of c cs] assms(1) have w: "well_formed s"
    and e: "entries s = fold (step_list c) cs []"
    by auto
  from assms(2) wf_cache_keys [OF w] obtain v where v: "(k, v) \<in> set (entries s)"
    by auto
  with wf_distinct [OF w] have "map_of (entries s) k = Some v" by simp
  moreover from v e fold_step_list_last_put [of c cs] have "last_put k cs = Some v"
    by auto
  ultimately show ?thesis by simp
qed

text \<open>
  Claim C4. Let a cache of positive capacity have received any sequence of calls. A key
  that is in the dictionary (it was inserted and has not been evicted since) was put, and
  \<open>get\<close> of it returns the value of the last \<open>put\<close> of this key in the sequence.
\<close>

theorem round_trip:
  assumes "0 < c" and "calls c cs = Inr s" and "k \<in> fst ` set (cache s)"
  shows "\<exists>v. last_put k cs = Some v \<and> returns k s = Inr v"
proof -
  from calls_wf [of c cs] assms(2) have w: "well_formed s" by auto
  from calls_last_put [OF assms(2,3)] obtain v where
    "last_put k cs = Some v" "map_of (entries s) k = Some v"
    by blast
  then show ?thesis by (simp add: returns_wf [OF w])
qed

theorem round_trip_witness:
  "(0::int) < 2 \<and>
   calls 2 [Put 1 10, Put 2 20, Put 1 11, Put 3 30] =
     Inr (projr (calls 2 [Put 1 10, Put 2 20, Put 1 11, Put 3 30])) \<and>
   1 \<in> fst ` set (cache (projr (calls 2 [Put 1 10, Put 2 20, Put 1 11, Put 3 30]))) \<and>
   last_put 1 [Put 1 10, Put 2 20, Put 1 11, Put 3 30] = Some 11 \<and>
   returns 1 (projr (calls 2 [Put 1 10, Put 2 20, Put 1 11, Put 3 30])) = Inr 11"
proof -
  let ?cs = "[Put 1 10, Put 2 20, Put 1 11, Put 3 30]"
  let ?s = "projr (calls 2 ?cs)"
  have c: "(0::int) < 2" by simp
  from calls_wf [of 2 ?cs] have r: "calls 2 ?cs = Inr ?s" and w: "well_formed ?s"
    and e: "entries ?s = fold (step_list 2) ?cs []"
    by auto
  from e have "entries ?s = [(3, 30), (1, 11)]" by (simp add: put_list_def)
  with wf_cache_keys [OF w] have k: "1 \<in> fst ` set (cache ?s)" by simp
  have l: "last_put 1 ?cs = Some 11" by (simp add: last_put_def)
  from round_trip [OF c r k] l c r k show ?thesis by simp
qed

section \<open>Putting a key again\<close>

lemma filter_key_length:
  "distinct (map fst xs) \<Longrightarrow> k \<in> fst ` set xs \<Longrightarrow>
   Suc (length (filter (\<lambda>p. fst p \<noteq> k) xs)) = length xs"
proof (induction xs)
  case Nil
  then show ?case by simp
next
  case (Cons p xs)
  show ?case
  proof (cases "fst p = k")
    case True
    with Cons.prems have "\<forall>q \<in> set xs. fst q \<noteq> k" by (auto simp add: image_iff)
    then have "filter (\<lambda>p. fst p \<noteq> k) xs = xs" by (simp add: filter_id_conv)
    with True show ?thesis by simp
  next
    case False
    with Cons.prems have "distinct (map fst xs)" "k \<in> fst ` set xs" by auto
    from Cons.IH [OF this] False show ?thesis by simp
  qed
qed

lemma filter_key_keys:
  "k \<in> fst ` set xs \<Longrightarrow> insert k (fst ` set (filter (\<lambda>p. fst p \<noteq> k) xs)) = fst ` set xs"
  by (auto simp add: image_iff)

lemma put_list_present:
  assumes "distinct (map fst xs)" and "k \<in> fst ` set xs" and "int (length xs) \<le> c"
  shows "put_list c k v xs = (k, v) # filter (\<lambda>p. fst p \<noteq> k) xs"
  using filter_key_length [OF assms(1,2)] assms(3) by (simp add: put_list_def Let_def)

lemma put_list_front:
  assumes "0 < c"
  shows "\<exists>zs. put_list c k v xs = (k, v) # zs"
proof (cases "filter (\<lambda>p. fst p \<noteq> k) xs = []")
  case True
  with assms show ?thesis by (simp add: put_list_def Let_def)
next
  case False
  then show ?thesis by (simp add: put_list_def Let_def)
qed

lemma put_present:
  assumes w: "well_formed s" and b: "int (length (entries s)) \<le> capacity s"
    and k: "k \<in> fst ` set (cache s)"
  shows "\<exists>s'. put k v s = Inr s' \<and> well_formed s' \<and> capacity s' = capacity s \<and>
           entries s' = (k, v) # filter (\<lambda>p. fst p \<noteq> k) (entries s) \<and>
           length (cache s') = length (cache s) \<and> fst ` set (cache s') = fst ` set (cache s)"
proof -
  from k wf_cache_keys [OF w] have k': "k \<in> fst ` set (entries s)" by simp
  from put_wf [OF w, of k v] obtain s' where
    s': "put k v s = Inr s'" "well_formed s'" "capacity s' = capacity s"
    "entries s' = put_list (capacity s) k v (entries s)"
    by blast
  from s'(4) put_list_present [OF wf_distinct [OF w] k' b]
  have e: "entries s' = (k, v) # filter (\<lambda>p. fst p \<noteq> k) (entries s)" by simp
  with filter_key_length [OF wf_distinct [OF w] k']
  have "length (entries s') = length (entries s)" by simp
  then have "length (cache s') = length (cache s)"
    using w s'(2) by (simp add: wf_cache_length)
  moreover from e filter_key_keys [OF k']
  have "fst ` set (entries s') = fst ` set (entries s)" by simp
  then have "fst ` set (cache s') = fst ` set (cache s)"
    using w s'(2) by (simp add: wf_cache_keys)
  ultimately show ?thesis using s' e by blast
qed

lemma put_front:
  assumes w: "well_formed s" and b: "int (length (entries s)) \<le> capacity s" and c: "0 < capacity s"
  shows "\<exists>s' zs. put k v s = Inr s' \<and> well_formed s' \<and> capacity s' = capacity s \<and>
           entries s' = (k, v) # zs \<and> int (length (entries s')) \<le> capacity s'"
proof -
  from put_wf [OF w, of k v] obtain s' where
    s': "put k v s = Inr s'" "well_formed s'" "capacity s' = capacity s"
    "entries s' = put_list (capacity s) k v (entries s)"
    by blast
  from put_list_front [OF c, of k v "entries s"] s'(4) obtain zs where
    "entries s' = (k, v) # zs" by auto
  moreover from put_list_length [OF b, of k v] s'(3,4)
  have "int (length (entries s')) \<le> capacity s'" by simp
  ultimately show ?thesis using s' by blast
qed

lemma calls_bounded:
  assumes "0 < c" and "calls c cs = Inr s"
  shows "well_formed s \<and> capacity s = c \<and> int (length (entries s)) \<le> c"
proof -
  from calls_wf [of c cs] assms(2) have "well_formed s" "capacity s = c"
    "entries s = fold (step_list c) cs []"
    by auto
  moreover from assms(1) have "int (length (fold (step_list c) cs [])) \<le> c"
    by (intro fold_step_list_length) simp
  ultimately show ?thesis by simp
qed

text \<open>
  Claim C6. Let a cache of positive capacity have received any sequence of calls. Then
  \<open>put(k, v1); put(k, v2)\<close> raise nothing, \<open>get(k)\<close> returns \<open>v2\<close> afterwards, and
  the second \<open>put\<close> leaves the number of entries and the set of keys as the first one
  left them. In general a \<open>put\<close> of a key that is in the dictionary changes neither the
  number of entries nor the set of keys, so it evicts nothing.
\<close>

theorem reinsertion:
  assumes "0 < c" and "calls c cs = Inr s"
  shows "\<exists>s1 s2. put k v1 s = Inr s1 \<and> put k v2 s1 = Inr s2 \<and> returns k s2 = Inr v2 \<and>
           length (cache s2) = length (cache s1) \<and>
           fst ` set (cache s2) = fst ` set (cache s1) \<and>
           (k \<in> fst ` set (cache s) \<longrightarrow>
              length (cache s1) = length (cache s) \<and>
              fst ` set (cache s1) = fst ` set (cache s))"
proof -
  from calls_bounded [OF assms] have w: "well_formed s" and cp: "capacity s = c"
    and b: "int (length (entries s)) \<le> capacity s"
    by simp_all
  from assms(1) cp have c: "0 < capacity s" by simp
  from put_front [OF w b c, of k v1] obtain s1 zs where
    s1: "put k v1 s = Inr s1" "well_formed s1" "capacity s1 = capacity s" "entries s1 = (k, v1) # zs"
    "int (length (entries s1)) \<le> capacity s1"
    by blast
  from s1(4) wf_cache_keys [OF s1(2)] have k1: "k \<in> fst ` set (cache s1)" by simp
  from put_present [OF s1(2) s1(5) k1, of v2] obtain s2 where
    s2: "put k v2 s1 = Inr s2" "well_formed s2"
    "entries s2 = (k, v2) # filter (\<lambda>p. fst p \<noteq> k) (entries s1)"
    "length (cache s2) = length (cache s1)" "fst ` set (cache s2) = fst ` set (cache s1)"
    by blast
  from s2(3) have r: "returns k s2 = Inr v2" by (simp add: returns_wf [OF s2(2)])
  have "length (cache s1) = length (cache s) \<and> fst ` set (cache s1) = fst ` set (cache s)"
    if "k \<in> fst ` set (cache s)"
    using put_present [OF w b that, of v1] s1(1) by auto
  with s1(1) s2 r show ?thesis by blast
qed

theorem reinsertion_witness:
  "(0::int) < 2 \<and>
   calls 2 [Put 1 10, Put 2 20] = Inr (projr (calls 2 [Put 1 10, Put 2 20])) \<and>
   (\<exists>s1 s2. put 1 7 (projr (calls 2 [Put 1 10, Put 2 20])) = Inr s1 \<and> put 1 8 s1 = Inr s2 \<and>
      returns 1 s2 = Inr 8 \<and> length (cache s2) = length (cache s1) \<and>
      fst ` set (cache s2) = fst ` set (cache s1) \<and>
      1 \<in> fst ` set (cache (projr (calls 2 [Put 1 10, Put 2 20]))) \<and>
      length (cache s1) = length (cache (projr (calls 2 [Put 1 10, Put 2 20]))) \<and>
      fst ` set (cache s1) = fst ` set (cache (projr (calls 2 [Put 1 10, Put 2 20]))))"
proof -
  let ?cs = "[Put 1 10, Put 2 20]"
  let ?s = "projr (calls 2 ?cs)"
  have c: "(0::int) < 2" by simp
  from calls_wf [of 2 ?cs] have r: "calls 2 ?cs = Inr ?s" and w: "well_formed ?s"
    and e: "entries ?s = fold (step_list 2) ?cs []"
    by auto
  from e have "entries ?s = [(2, 20), (1, 10)]" by (simp add: put_list_def)
  with wf_cache_keys [OF w] have k: "1 \<in> fst ` set (cache ?s)" by simp
  from reinsertion [OF c r, of 1 7 8] k c r show ?thesis by blast
qed

section \<open>Eviction\<close>

lemma idle_snoc: "idle k (cs @ [x]) = (if touches k x then 0 else Suc (idle k cs))"
  by (simp add: idle_def)

lemma sorted_wrt_front:
  assumes s: "sorted_wrt (\<lambda>p q. f (fst p) < f (fst q)) xs"
    and g: "g k = 0" and o: "\<forall>k'. k' \<noteq> k \<longrightarrow> g k' = Suc (f k')"
  shows "sorted_wrt (\<lambda>p q. g (fst p) < g (fst q)) ((k, v) # filter (\<lambda>p. fst p \<noteq> k) xs)"
proof -
  let ?zs = "filter (\<lambda>p. fst p \<noteq> k) xs"
  from s have "sorted_wrt (\<lambda>p q. f (fst p) < f (fst q)) ?zs" by (rule sorted_wrt_filter)
  then have "sorted_wrt (\<lambda>p q. g (fst p) < g (fst q)) ?zs"
    by (rule sorted_wrt_mono_rel [rotated]) (use o in auto)
  moreover have "\<forall>q \<in> set ?zs. g k < g (fst q)" using g o by auto
  ultimately show ?thesis by simp
qed

lemma sorted_wrt_butlast: "sorted_wrt R xs \<Longrightarrow> sorted_wrt R (butlast xs)"
  by (simp add: butlast_conv_take sorted_wrt_take)

lemma step_list_idle:
  assumes s: "sorted_wrt (\<lambda>p q. idle (fst p) cs < idle (fst q) cs) xs"
  shows "sorted_wrt (\<lambda>p q. idle (fst p) (cs @ [x]) < idle (fst q) (cs @ [x])) (step_list c x xs)"
proof (cases x)
  case (Get k)
  show ?thesis
  proof (cases "map_of xs k")
    case None
    then have "\<forall>p \<in> set xs. fst p \<noteq> k" by (auto simp add: map_of_eq_None_iff image_iff)
    then have "sorted_wrt (\<lambda>p q. idle (fst p) (cs @ [x]) < idle (fst q) (cs @ [x])) xs"
      using s Get by (intro sorted_wrt_mono_rel [OF _ s]) (auto simp add: idle_snoc)
    with None Get show ?thesis by (simp add: get_list_def)
  next
    case (Some v)
    have "sorted_wrt (\<lambda>p q. idle (fst p) (cs @ [x]) < idle (fst q) (cs @ [x]))
            ((k, v) # filter (\<lambda>p. fst p \<noteq> k) xs)"
      using s by (rule sorted_wrt_front) (auto simp add: idle_snoc Get)
    with Some Get show ?thesis by (simp add: get_list_def)
  qed
next
  case (Put k v)
  let ?ys = "(k, v) # filter (\<lambda>p. fst p \<noteq> k) xs"
  have y: "sorted_wrt (\<lambda>p q. idle (fst p) (cs @ [x]) < idle (fst q) (cs @ [x])) ?ys"
    using s by (rule sorted_wrt_front) (auto simp add: idle_snoc Put)
  have "put_list c k v xs = butlast ?ys \<or> put_list c k v xs = ?ys"
    by (simp only: put_list_def Let_def split: if_split) blast
  with y sorted_wrt_butlast [OF y] Put show ?thesis by auto
qed

lemma fold_step_list_idle:
  "sorted_wrt (\<lambda>p q. idle (fst p) cs < idle (fst q) cs) (fold (step_list c) cs [])"
proof (induction cs rule: rev_induct)
  case Nil
  then show ?case by simp
next
  case (snoc x cs)
  from step_list_idle [OF snoc.IH, of x c] show ?case by simp
qed

lemma sorted_wrt_last:
  assumes "sorted_wrt R xs" and "p \<in> set xs" and "p \<noteq> last xs"
  shows "R p (last xs)"
proof -
  from assms(2) have ne: "xs \<noteq> []" by auto
  then have e: "xs = butlast xs @ [last xs]" by simp
  with assms(2,3) have "p \<in> set (butlast xs)"
    by (metis Un_iff empty_iff empty_set set_ConsD set_append)
  moreover from assms(1) e have "sorted_wrt R (butlast xs @ [last xs])" by simp
  ultimately show ?thesis by (simp add: sorted_wrt_append)
qed

lemma wf_tail_prev:
  assumes w: "well_formed s" and ne: "order s \<noteq> []"
  shows "prev (heap s (tail s)) = Some (last (order s)) \<and>
         map_of (cache s) (key (heap s (last (order s)))) = Some (last (order s)) \<and>
         key (heap s (last (order s))) = fst (last (entries s))"
proof -
  let ?ns = "order s"
  define l where "l = last ?ns"
  from ne have e: "?ns = butlast ?ns @ [l]" by (simp add: l_def)
  from w have c: "chain s ?ns" and dc: "distinct (map fst (cache s))"
    and ix: "set (cache s) = (\<lambda>a. (key (heap s a), a)) ` set ?ns"
    by (simp_all add: well_formed_def inv_on_def)
  have "head s # ?ns @ [tail s] = (head s # butlast ?ns) @ l # [tail s]"
    using e by (metis append.assoc append_Cons append_Nil)
  with c have "linked (heap s) ((head s # butlast ?ns) @ l # [tail s])"
    by (simp only: chain_def)
  then have pt: "prev (heap s (tail s)) = Some l"
    using linked_append [of "heap s" "head s # butlast ?ns" l "[tail s]"] by simp
  from ne have "l \<in> set ?ns" by (simp add: l_def)
  with ix have "(key (heap s l), l) \<in> set (cache s)" by simp
  with dc have m: "map_of (cache s) (key (heap s l)) = Some l" by simp
  from ne have "last (entries s) = (key (heap s l), val (heap s l))"
    by (simp add: entries_def nodes_def last_map l_def)
  with pt m show ?thesis by (simp add: l_def)
qed

lemma butlast_keys:
  assumes d: "distinct (map fst xs)" and ne: "xs \<noteq> []"
  shows "fst ` set (butlast xs) = fst ` set xs - {fst (last xs)}"
proof -
  from ne have e: "xs = butlast xs @ [last xs]" by simp
  then have "map fst xs = map fst (butlast xs) @ [fst (last xs)]"
    by (metis list.simps(8) list.simps(9) map_append)
  with d have "fst (last xs) \<notin> set (map fst (butlast xs))"
    by (metis distinct_append distinct.simps(2) disjoint_iff list.set_intros(1))
  moreover from e have "set xs = insert (last xs) (set (butlast xs))"
    by (metis Un_insert_right append_Nil2 list.simps(15) set_append)
  ultimately show ?thesis by auto
qed

lemma put_list_full:
  assumes d: "distinct (map fst xs)" and k: "k \<notin> fst ` set xs"
    and c: "0 < c" and f: "c < int (length xs) + 1"
  shows "put_list c k v xs = (k, v) # butlast xs \<and> xs \<noteq> []"
proof -
  from k have "filter (\<lambda>p. fst p \<noteq> k) xs = xs"
    by (auto simp add: filter_id_conv image_iff)
  moreover from c f have "xs \<noteq> []" by auto
  ultimately show ?thesis using f by (simp add: put_list_def Let_def)
qed

lemma put_list_room:
  assumes k: "k \<notin> fst ` set xs" and f: "\<not> c < int (length xs) + 1"
  shows "put_list c k v xs = (k, v) # filter (\<lambda>p. fst p \<noteq> k) xs \<and>
         filter (\<lambda>p. fst p \<noteq> k) xs = xs"
proof -
  from k have "filter (\<lambda>p. fst p \<noteq> k) xs = xs"
    by (auto simp add: filter_id_conv image_iff)
  then show ?thesis using f by (simp add: put_list_def Let_def)
qed

lemma put_evicts:
  assumes c: "0 < c" and r: "calls c cs = Inr s"
    and k: "k \<notin> fst ` set (cache s)" and f: "c < int (length (cache s)) + 1"
  shows "\<exists>s'. put k v s = Inr s' \<and>
           (\<exists>l. prev (heap s (tail s)) = Some l \<and> l = last (order s) \<and>
              map_of (cache s) (key (heap s l)) = Some l \<and>
              key (heap s l) = fst (last (entries s)) \<and>
              (\<forall>k' \<in> fst ` set (cache s).
                 k' \<noteq> key (heap s l) \<longrightarrow> idle k' cs < idle (key (heap s l)) cs) \<and>
              fst ` set (cache s') = insert k (fst ` set (cache s)) - {key (heap s l)} \<and>
              length (cache s') = length (cache s) \<and>
              entries s' = (k, v) # butlast (entries s))"
proof -
  let ?xs = "entries s"
  from calls_wf [of c cs] r have w: "well_formed s" and cp: "capacity s = c"
    and e: "?xs = fold (step_list c) cs []"
    by auto
  note d = wf_distinct [OF w]
  from k f have k': "k \<notin> fst ` set ?xs" and f': "c < int (length ?xs) + 1"
    by (simp_all add: wf_cache_keys [OF w, symmetric] wf_cache_length [OF w, symmetric])
  from put_list_full [OF d k' c f', of v] have pl: "put_list c k v ?xs = (k, v) # butlast ?xs"
    and ne: "?xs \<noteq> []"
    by simp_all
  from ne have no: "order s \<noteq> []" by (auto simp add: entries_def nodes_def)
  define l where "l = last (order s)"
  from wf_tail_prev [OF w no]
  have "prev (heap s (tail s)) = Some l \<and> map_of (cache s) (key (heap s l)) = Some l \<and>
        key (heap s l) = fst (last ?xs)"
    unfolding l_def .
  then have pt: "prev (heap s (tail s)) = Some l"
    and m: "map_of (cache s) (key (heap s l)) = Some l"
    and kl: "key (heap s l) = fst (last ?xs)"
    by blast+
  from put_wf [OF w, of k v] cp pl obtain s' where
    s': "put k v s = Inr s'" "well_formed s'" "entries s' = (k, v) # butlast ?xs"
    by auto
  have lru: "idle k' cs < idle (key (heap s l)) cs"
    if "k' \<in> fst ` set (cache s)" "k' \<noteq> key (heap s l)" for k'
  proof -
    from that(1) obtain p where p: "p \<in> set ?xs" "fst p = k'"
      by (auto simp add: wf_cache_keys [OF w])
    with that(2) kl have "p \<noteq> last ?xs" by auto
    from sorted_wrt_last [OF fold_step_list_idle [of cs c] p(1) [unfolded e] this [unfolded e]]
    show ?thesis using p(2) kl e by simp
  qed
  from s'(3) have "fst ` set (entries s') = insert k (fst ` set (butlast ?xs))" by simp
  also have "\<dots> = insert k (fst ` set ?xs - {key (heap s l)})"
    by (simp add: butlast_keys [OF d ne] kl)
  also have "\<dots> = insert k (fst ` set ?xs) - {key (heap s l)}"
    using k' kl ne by (auto simp add: image_iff)
  finally have ks: "fst ` set (cache s') = insert k (fst ` set (cache s)) - {key (heap s l)}"
    by (simp add: wf_cache_keys [OF w] wf_cache_keys [OF s'(2)])
  from s'(3) ne have "length (entries s') = length ?xs" by simp
  then have len: "length (cache s') = length (cache s)"
    by (simp add: wf_cache_length [OF w] wf_cache_length [OF s'(2)])
  show ?thesis
  proof (intro exI [of _ s'] exI [of _ l] conjI)
    show "put k v s = Inr s'" by (fact s'(1))
    show "prev (heap s (tail s)) = Some l" by (fact pt)
    show "l = last (order s)" by (fact l_def)
    show "map_of (cache s) (key (heap s l)) = Some l" by (fact m)
    show "key (heap s l) = fst (last ?xs)" by (fact kl)
    show "\<forall>k' \<in> fst ` set (cache s).
            k' \<noteq> key (heap s l) \<longrightarrow> idle k' cs < idle (key (heap s l)) cs"
      using lru by (intro ballI impI)
    show "fst ` set (cache s') = insert k (fst ` set (cache s)) - {key (heap s l)}"
      by (fact ks)
    show "length (cache s') = length (cache s)" by (fact len)
    show "entries s' = (k, v) # butlast ?xs" by (fact s'(3))
  qed
qed

lemma put_keeps:
  assumes c: "0 < c" and r: "calls c cs = Inr s"
    and n: "\<not> (k \<notin> fst ` set (cache s) \<and> c < int (length (cache s)) + 1)"
  shows "\<exists>s'. put k v s = Inr s' \<and> fst ` set (cache s') = insert k (fst ` set (cache s)) \<and>
           entries s' = (k, v) # filter (\<lambda>p. fst p \<noteq> k) (entries s)"
proof (cases "k \<in> fst ` set (cache s)")
  case True
  from calls_bounded [OF c r] have w: "well_formed s" and b: "int (length (entries s)) \<le> capacity s"
    by simp_all
  from put_present [OF w b True, of v] obtain s' where
    "put k v s = Inr s'" "entries s' = (k, v) # filter (\<lambda>p. fst p \<noteq> k) (entries s)"
    "fst ` set (cache s') = fst ` set (cache s)"
    by blast
  moreover from True have "insert k (fst ` set (cache s)) = fst ` set (cache s)"
    by (rule insert_absorb)
  ultimately show ?thesis by simp
next
  case False
  let ?xs = "entries s"
  from calls_wf [of c cs] r have w: "well_formed s" and cp: "capacity s = c" by auto
  from False n have k': "k \<notin> fst ` set ?xs" and f': "\<not> c < int (length ?xs) + 1"
    by (simp_all add: wf_cache_keys [OF w, symmetric] wf_cache_length [OF w, symmetric])
  from put_list_room [OF k' f', of v]
  have pl: "put_list c k v ?xs = (k, v) # filter (\<lambda>p. fst p \<noteq> k) ?xs"
    and fl: "filter (\<lambda>p. fst p \<noteq> k) ?xs = ?xs"
    by simp_all
  from put_wf [OF w, of k v] cp pl obtain s' where
    s': "put k v s = Inr s'" "well_formed s'" "entries s' = (k, v) # filter (\<lambda>p. fst p \<noteq> k) ?xs"
    by auto
  from s'(3) fl have "fst ` set (entries s') = insert k (fst ` set ?xs)" by simp
  then have "fst ` set (cache s') = insert k (fst ` set (cache s))"
    by (simp add: wf_cache_keys [OF w] wf_cache_keys [OF s'(2)])
  with s'(1,3) show ?thesis by blast
qed

text \<open>
  Claim C2. Let a cache of positive capacity have received the calls \<open>cs\<close>, and let
  \<open>put(k, v)\<close> follow; it raises nothing. If \<open>k\<close> is not in the dictionary and the
  new entry exceeds the capacity, the node \<open>l\<close> before the tail sentinel is an entry of
  the dictionary and the last of the list, every other key of the dictionary was used
  more recently than the key of \<open>l\<close>, and exactly this entry is evicted: the keys
  afterwards are the old keys and \<open>k\<close> without the key of \<open>l\<close>, the number of entries
  is unchanged, and the list is the new entry followed by the old list without its last
  element. In every other case nothing is evicted: the keys afterwards are the old keys
  and \<open>k\<close>.
\<close>

theorem eviction:
  assumes "0 < c" and "calls c cs = Inr s"
  shows "\<exists>s'. put k v s = Inr s' \<and>
           (if k \<notin> fst ` set (cache s) \<and> c < int (length (cache s)) + 1
            then \<exists>l. prev (heap s (tail s)) = Some l \<and> l = last (order s) \<and>
                   map_of (cache s) (key (heap s l)) = Some l \<and>
                   key (heap s l) = fst (last (entries s)) \<and>
                   (\<forall>k' \<in> fst ` set (cache s).
                      k' \<noteq> key (heap s l) \<longrightarrow> idle k' cs < idle (key (heap s l)) cs) \<and>
                   fst ` set (cache s') = insert k (fst ` set (cache s)) - {key (heap s l)} \<and>
                   length (cache s') = length (cache s) \<and>
                   entries s' = (k, v) # butlast (entries s)
            else fst ` set (cache s') = insert k (fst ` set (cache s)) \<and>
                 entries s' = (k, v) # filter (\<lambda>p. fst p \<noteq> k) (entries s))"
proof (cases "k \<notin> fst ` set (cache s) \<and> c < int (length (cache s)) + 1")
  case True
  then have k: "k \<notin> fst ` set (cache s)" and f: "c < int (length (cache s)) + 1"
    by simp_all
  from put_evicts [OF assms k f, of v] show ?thesis unfolding if_P [OF True] .
next
  case False
  from put_keeps [OF assms False, of v] show ?thesis unfolding if_not_P [OF False] .
qed

theorem eviction_witness:
  "(0::int) < 2 \<and>
   calls 2 [Put 1 10, Put 2 20, Get 1] = Inr (projr (calls 2 [Put 1 10, Put 2 20, Get 1])) \<and>
   entries (projr (calls 2 [Put 1 10, Put 2 20, Get 1])) = [(1, 10), (2, 20)] \<and>
   (\<exists>s'. put 3 30 (projr (calls 2 [Put 1 10, Put 2 20, Get 1])) = Inr s' \<and>
      fst ` set (cache s') = {1, 3} \<and> entries s' = [(3, 30), (1, 10)] \<and>
      idle 1 [Put 1 10, Put 2 20, Get 1] < idle 2 [Put 1 10, Put 2 20, Get 1])"
proof -
  let ?cs = "[Put 1 10, Put 2 20, Get 1]"
  let ?s = "projr (calls 2 ?cs)"
  have c: "(0::int) < 2" by simp
  from calls_wf [of 2 ?cs] have r: "calls 2 ?cs = Inr ?s" and w: "well_formed ?s"
    and e: "entries ?s = fold (step_list 2) ?cs []"
    by auto
  from e have e': "entries ?s = [(1, 10), (2, 20)]" by (simp add: put_list_def get_list_def)
  with wf_cache_keys [OF w] have ks: "fst ` set (cache ?s) = {1, 2}" by auto
  from e' wf_cache_length [OF w] have len: "length (cache ?s) = 2" by simp
  from ks len have h: "3 \<notin> fst ` set (cache ?s) \<and> 2 < int (length (cache ?s)) + 1"
    by simp
  from eviction [OF c r, of 3 30] obtain s' l where
    p: "put 3 30 ?s = Inr s'"
    and "prev (heap ?s (tail ?s)) = Some l" and "l = last (order ?s)"
    and "map_of (cache ?s) (key (heap ?s l)) = Some l"
    and kl: "key (heap ?s l) = fst (last (entries ?s))"
    and lru: "\<forall>k' \<in> fst ` set (cache ?s).
                k' \<noteq> key (heap ?s l) \<longrightarrow> idle k' ?cs < idle (key (heap ?s l)) ?cs"
    and k2: "fst ` set (cache s') = insert 3 (fst ` set (cache ?s)) - {key (heap ?s l)}"
    and "length (cache s') = length (cache ?s)"
    and e2: "entries s' = (3, 30) # butlast (entries ?s)"
    unfolding if_P [OF h] by (elim exE conjE) (rule that)
  from kl e' have kl': "key (heap ?s l) = 2" by simp
  from k2 ks kl' have "fst ` set (cache s') = {1, 3}" by auto
  moreover from e2 e' have "entries s' = [(3, 30), (1, 10)]" by simp
  moreover from lru ks kl' have "idle 1 ?cs < idle 2 ?cs" by simp
  ultimately have "put 3 30 ?s = Inr s' \<and> fst ` set (cache s') = {1, 3} \<and>
      entries s' = [(3, 30), (1, 10)] \<and> idle 1 ?cs < idle 2 ?cs"
    using p by simp
  then have "\<exists>s'. put 3 30 ?s = Inr s' \<and> fst ` set (cache s') = {1, 3} \<and>
      entries s' = [(3, 30), (1, 10)] \<and> idle 1 ?cs < idle 2 ?cs" ..
  with c r e' show ?thesis by (intro conjI)
qed

section \<open>The result of a failed lookup\<close>

lemma returns_absent: "k \<notin> fst ` set (cache s) \<Longrightarrow> returns k s = Inr (- 1)"
  by (simp add: returns_def get_absent)

text \<open>
  Claim C8, as amended. Let a cache have received any sequence of calls, let \<open>k\<close> be in
  the dictionary and \<open>k'\<close> not. Then \<open>get(k')\<close> returns \<open>-1\<close>; \<open>get(k)\<close> returns
  the value stored in the node of \<open>k\<close>, which is the value last put for \<open>k\<close>; and
  \<open>get(k)\<close> returns the same as \<open>get(k')\<close> exactly when this value is \<open>-1\<close>: a
  missing key can be told from a present one whenever the stored value is not \<open>-1\<close>.
\<close>

theorem absent_result_distinguishable:
  assumes "calls c cs = Inr s" and "k \<in> fst ` set (cache s)" and "k' \<notin> fst ` set (cache s)"
  shows "returns k' s = Inr (- 1) \<and>
         (\<exists>a. map_of (cache s) k = Some a \<and> returns k s = Inr (val (heap s a)) \<and>
              last_put k cs = Some (val (heap s a))) \<and>
         (returns k s = returns k' s \<longleftrightarrow> last_put k cs = Some (- 1))"
proof -
  from calls_wf [of c cs] assms(1) have w: "well_formed s" by auto
  from calls_last_put [OF assms(1,2)] obtain v where
    v: "last_put k cs = Some v" "map_of (entries s) k = Some v"
    by blast
  from v(2) have rk: "returns k s = Inr v" by (simp add: returns_wf [OF w])
  from assms(2) obtain a where a: "map_of (cache s) k = Some a"
    by (cases "map_of (cache s) k") (simp_all add: map_of_eq_None_iff)
  from inv_on_lookup [OF wf_inv_on [OF w] a] v(2) have "val (heap s a) = v"
    by (simp add: entries_def)
  with a rk v(1) have st: "\<exists>a. map_of (cache s) k = Some a \<and>
      returns k s = Inr (val (heap s a)) \<and> last_put k cs = Some (val (heap s a))"
    by blast
  from rk v(1) returns_absent [OF assms(3)]
  have "returns k s = returns k' s \<longleftrightarrow> last_put k cs = Some (- 1)" by auto
  with returns_absent [OF assms(3)] st show ?thesis by (intro conjI)
qed

theorem absent_result_distinguishable_witness:
  "calls 2 [Put 1 5] = Inr (projr (calls 2 [Put 1 5])) \<and>
   1 \<in> fst ` set (cache (projr (calls 2 [Put 1 5]))) \<and>
   2 \<notin> fst ` set (cache (projr (calls 2 [Put 1 5]))) \<and>
   returns 2 (projr (calls 2 [Put 1 5])) = Inr (- 1) \<and>
   returns 1 (projr (calls 2 [Put 1 5])) = Inr 5 \<and>
   returns 1 (projr (calls 2 [Put 1 5])) \<noteq> returns 2 (projr (calls 2 [Put 1 5]))"
proof -
  let ?cs = "[Put 1 5]"
  let ?s = "projr (calls 2 ?cs)"
  from calls_wf [of 2 ?cs] have r: "calls 2 ?cs = Inr ?s" and w: "well_formed ?s"
    and e: "entries ?s = fold (step_list 2) ?cs []"
    by auto
  from e have "entries ?s = [(1, 5)]" by (simp add: put_list_def)
  with wf_cache_keys [OF w] have ks: "fst ` set (cache ?s) = {1}" by simp
  from ks have k1: "1 \<in> fst ` set (cache ?s)" and k2: "2 \<notin> fst ` set (cache ?s)"
    by simp_all
  have l: "last_put 1 ?cs = Some 5" by (simp add: last_put_def)
  from absent_result_distinguishable [OF r k1 k2]
  have r2: "returns 2 ?s = Inr (- 1)"
    and st: "\<exists>a. map_of (cache ?s) 1 = Some a \<and> returns 1 ?s = Inr (val (heap ?s a)) \<and>
               last_put 1 ?cs = Some (val (heap ?s a))"
    and iff: "returns 1 ?s = returns 2 ?s \<longleftrightarrow> last_put 1 ?cs = Some (- 1)"
    by blast+
  from st l have r1: "returns 1 ?s = Inr 5" by auto
  from iff l have ne: "returns 1 ?s \<noteq> returns 2 ?s" by simp
  from r k1 k2 r2 r1 ne show ?thesis by (intro conjI)
qed

text \<open>
  Claim C8 as stated fails: after \<open>put(1, -1)\<close> on a new cache of capacity 2 the key 1
  is present and the key 2 is missing, and \<open>get\<close> returns the same for both; even the
  caches after the two calls are equal.
\<close>

theorem absent_result_collision:
  "calls 2 [Put 1 (- 1)] = Inr (projr (calls 2 [Put 1 (- 1)])) \<and>
   1 \<in> fst ` set (cache (projr (calls 2 [Put 1 (- 1)]))) \<and>
   2 \<notin> fst ` set (cache (projr (calls 2 [Put 1 (- 1)]))) \<and>
   returns 1 (projr (calls 2 [Put 1 (- 1)])) = returns 2 (projr (calls 2 [Put 1 (- 1)])) \<and>
   get 1 (projr (calls 2 [Put 1 (- 1)])) = get 2 (projr (calls 2 [Put 1 (- 1)]))"
proof -
  let ?cs = "[Put 1 (- 1)]"
  let ?s = "projr (calls 2 ?cs)"
  from calls_wf [of 2 ?cs] have r: "calls 2 ?cs = Inr ?s" and w: "well_formed ?s"
    and e: "entries ?s = fold (step_list 2) ?cs []"
    by auto
  from e have e': "entries ?s = [(1, - 1)]" by (simp add: put_list_def)
  with wf_cache_keys [OF w] have ks: "fst ` set (cache ?s) = {1}" by simp
  from ks have k1: "1 \<in> fst ` set (cache ?s)" and k2: "2 \<notin> fst ` set (cache ?s)"
    by simp_all
  from e' have "returns 1 ?s = Inr (- 1)" by (simp add: returns_wf [OF w])
  with returns_absent [OF k2] have "returns 1 ?s = returns 2 ?s" by simp
  moreover have "get 1 ?s = get 2 ?s"
    by (simp add: calls_def LRUCache_def put_def get_def add_node_def remove_node_def
        Node_def Let_def fun_eq_iff)
  ultimately show ?thesis using r k1 k2 by (intro conjI)
qed

end
